theory Spec2Isabelle
  imports Main "HOL-Library.Word"
begin

unbundle bit_operations_syntax

section \<open>Common types\<close>

text \<open>
  The engine is C.  A \<open>char\<close> is modelled as an 8-bit word, a \<open>uint32_t\<close> as a
  32-bit word.  A \<open>char*\<close> into the input is an integer offset into a byte list;
  every dereference goes through \<open>rd\<close>, which has no value outside the list.
  A failed \<open>assert\<close>, a dereference of \<open>NULL\<close>, a read outside the buffer, an
  access to freed memory and a conversion whose result C leaves undefined are
  values of type \<open>error\<close>; \<open>OutOfFuel\<close> stands for a computation that has not
  returned within the given number of steps.
\<close>

type_synonym byte = "8 word"
type_synonym u32 = "32 word"

datatype error = AssertFail | NullDeref | OutOfBounds | UseAfterFree | Undefined | OutOfFuel

definition rd :: "byte list \<Rightarrow> int \<Rightarrow> byte option" where
  "rd buf p = (if 0 \<le> p \<and> p < int (length buf) then Some (buf ! nat p) else None)"

section \<open>u8\_translate.c: UTF-8 decoding and encoding\<close>

definition ErrorPoint :: u32 where
  "ErrorPoint = 0xFFFFFFFF"

definition IsCont :: "byte \<Rightarrow> bool" where
  "IsCont b = (b AND 0xC0 = 0x80)"

definition ByteLen :: "u32 \<Rightarrow> nat" where
  "ByteLen cp = (if cp < 0x0080 then 1 else if cp < 0x0F00 then 2
                 else if cp < 0xFFFF then 3 else 4)"

text \<open>The three decoders take the bytes \<open>*u\<close>, \<open>*(u+1)\<close>, ... that they read.\<close>

definition u8decode2bytes :: "byte \<Rightarrow> byte \<Rightarrow> u32" where
  "u8decode2bytes u0 u1 =
     push_bit 6 (ucast (u0 AND 0x1F)) OR ucast (u1 AND 0x3F)"

definition u8decode3bytes :: "byte \<Rightarrow> byte \<Rightarrow> byte \<Rightarrow> u32" where
  "u8decode3bytes u0 u1 u2 =
     push_bit 12 (ucast (u0 AND 0x0F)) OR push_bit 6 (ucast (u1 AND 0x3F))
       OR ucast (u2 AND 0x3F)"

definition u8decode4bytes :: "byte \<Rightarrow> byte \<Rightarrow> byte \<Rightarrow> byte \<Rightarrow> u32" where
  "u8decode4bytes u0 u1 u2 u3 =
     push_bit 18 (ucast (u0 AND 0x08)) OR push_bit 12 (ucast (u1 AND 0x3F))
       OR push_bit 6 (ucast (u2 AND 0x3F)) OR ucast (u3 AND 0x3F)"

text \<open>
  \<open>_decode begin &end\<close>: the result is the codepoint and the value stored in
  \<open>*end\<close>.  The \<open>&&\<close> of the continuation tests is short-circuit, so a later byte
  is read only when the earlier ones are continuation bytes.
\<close>

definition decode :: "byte list \<Rightarrow> int \<Rightarrow> error + (u32 \<times> int)" where
  "decode buf begin =
     (case rd buf begin of
        None \<Rightarrow> Inl OutOfBounds
      | Some b0 \<Rightarrow>
          let sw = b0 AND 0xF0 in
          if sw < 0x80 then Inr (ucast b0, begin + 1)
          else if sw < 0xC0 then Inr (ErrorPoint, begin + 1)
          else if sw < 0xE0 then
            (case rd buf (begin + 1) of
               None \<Rightarrow> Inl OutOfBounds
             | Some b1 \<Rightarrow>
                 if \<not> IsCont b1 then Inr (ErrorPoint, begin + 2)
                 else Inr (u8decode2bytes b0 b1, begin + 2))
          else if sw = 0xE0 then
            (case rd buf (begin + 1) of
               None \<Rightarrow> Inl OutOfBounds
             | Some b1 \<Rightarrow>
                 if \<not> IsCont b1 then Inr (ErrorPoint, begin + 3)
                 else
                   (case rd buf (begin + 2) of
                      None \<Rightarrow> Inl OutOfBounds
                    | Some b2 \<Rightarrow>
                        if \<not> IsCont b2 then Inr (ErrorPoint, begin + 3)
                        else Inr (u8decode3bytes b0 b1 b2, begin + 3)))
          else
            (case rd buf (begin + 1) of
               None \<Rightarrow> Inl OutOfBounds
             | Some b1 \<Rightarrow>
                 if \<not> IsCont b1 then Inr (ErrorPoint, begin + 4)
                 else
                   (case rd buf (begin + 2) of
                      None \<Rightarrow> Inl OutOfBounds
                    | Some b2 \<Rightarrow>
                        if \<not> IsCont b2 then Inr (ErrorPoint, begin + 4)
                        else
                          (case rd buf (begin + 3) of
                             None \<Rightarrow> Inl OutOfBounds
                           | Some b3 \<Rightarrow>
                               if \<not> IsCont b3 then Inr (ErrorPoint, begin + 4)
                               else Inr (u8decode4bytes b0 b1 b2 b3, begin + 4)))))"

definition u8encode2bytes :: "u32 \<Rightarrow> byte list" where
  "u8encode2bytes cp =
     [ucast (0xC0 OR (0x1F AND drop_bit 6 cp)), ucast (0x80 OR (0x3F AND cp))]"

definition u8encode3bytes :: "u32 \<Rightarrow> byte list" where
  "u8encode3bytes cp =
     [ucast (0xE0 OR (0xEF AND drop_bit 12 cp)),
      ucast (0x80 OR (0x3F AND drop_bit 6 cp)),
      ucast (0x80 OR (0x3F AND cp))]"

definition u8encode4bytes :: "u32 \<Rightarrow> byte list" where
  "u8encode4bytes cp =
     [ucast (0xF0 OR (0xF7 AND drop_bit 18 cp)),
      ucast (0x80 OR (0x3F AND drop_bit 12 cp)),
      ucast (0x80 OR (0x3F AND drop_bit 6 cp)),
      ucast (0x80 OR (0x3F AND cp))]"

text \<open>\<open>_encode codepoint write\<close>: the bytes stored at \<open>write\<close>; their number is
  the distance of the returned pointer from \<open>write\<close>.\<close>

definition encode :: "u32 \<Rightarrow> byte list" where
  "encode codepoint =
     (let len = ByteLen codepoint in
      if len = 1 then [ucast codepoint]
      else if len = 2 then u8encode2bytes codepoint
      else if len = 3 then u8encode3bytes codepoint
      else u8encode4bytes codepoint)"

text \<open>\<open>u8_duplicate\<close> of an unbound codepoint: a zeroed array of
  \<open>ByteLen + 1\<close> bytes into which the codepoint is encoded.\<close>

definition u8_duplicate :: "u32 \<Rightarrow> byte list" where
  "u8_duplicate codepoint = encode codepoint @ [0]"

section \<open>Sequencing of fallible steps\<close>

definition bnd :: "error + 'a \<Rightarrow> ('a \<Rightarrow> error + 'b) \<Rightarrow> error + 'b" where
  "bnd m f = (case m of Inl e \<Rightarrow> Inl e | Inr x \<Rightarrow> f x)"

section \<open>class.c: character classes\<close>

record urange32 =
  lo :: u32
  hi :: u32

text \<open>A \<open>class_t*\<close> is \<open>Null\<close> or a node with its range and two children.  The
  handle returned by \<open>class_new\<close> always points at a node.\<close>

datatype class_t = Null | Node urange32 class_t class_t

definition EmptyVal :: u32 where
  "EmptyVal = 0xFFFFFFFF"

fun EmptyTree :: "class_t \<Rightarrow> error + bool" where
  "EmptyTree Null = Inl NullDeref"
| "EmptyTree (Node r l rc) = Inr (lo r = EmptyVal)"

fun tree_height :: "class_t \<Rightarrow> int" where
  "tree_height Null = 0"
| "tree_height (Node r l rc) = max (tree_height l) (tree_height rc) + 1"

fun balance_factor :: "class_t \<Rightarrow> error + int" where
  "balance_factor Null = Inl NullDeref"
| "balance_factor (Node r l rc) = Inr (tree_height l - tree_height rc)"

subsection \<open>Balancing\<close>

text \<open>The rotations keep the address of the parent and swap the two ranges, so
  that the root pointer stays valid; as values they are the usual rotations.\<close>

fun rotate_right :: "class_t \<Rightarrow> error + class_t" where
  "rotate_right Null = Inl NullDeref"
| "rotate_right (Node pr Null prr) = Inl AssertFail"
| "rotate_right (Node pr (Node cr cl crr) prr) = Inr (Node cr cl (Node pr crr prr))"

fun rotate_left :: "class_t \<Rightarrow> error + class_t" where
  "rotate_left Null = Inl NullDeref"
| "rotate_left (Node pr pl Null) = Inl AssertFail"
| "rotate_left (Node pr pl (Node cr cl crr)) = Inr (Node cr (Node pr pl cl) crr)"

fun move_min_to_root :: "class_t \<Rightarrow> error + class_t" where
  "move_min_to_root Null = Inl NullDeref"
| "move_min_to_root (Node r Null rc) = Inr (Node r Null rc)"
| "move_min_to_root (Node r (Node lr ll lrc) rc) =
     bnd (move_min_to_root (Node lr ll lrc)) (\<lambda>l'. rotate_right (Node r l' rc))"

fun nodes :: "class_t \<Rightarrow> nat" where
  "nodes Null = 0"
| "nodes (Node r l rc) = Suc (nodes l + nodes rc)"

lemma rotate_right_nodes: "rotate_right t = Inr t' \<Longrightarrow> nodes t' = nodes t"
  by (induction t rule: rotate_right.induct) auto

lemma rotate_left_nodes: "rotate_left t = Inr t' \<Longrightarrow> nodes t' = nodes t"
  by (induction t rule: rotate_left.induct) auto

lemma move_min_to_root_nodes: "move_min_to_root t = Inr t' \<Longrightarrow> nodes t' = nodes t"
proof (induction t arbitrary: t' rule: move_min_to_root.induct)
  case (3 r lr ll lrc rc)
  from "3.prems" obtain l' where l': "move_min_to_root (Node lr ll lrc) = Inr l'"
      "rotate_right (Node r l' rc) = Inr t'"
    by (auto simp: bnd_def split: sum.splits)
  from "3.IH"[OF l'(1)] rotate_right_nodes[OF l'(2)] show ?case by simp
qed auto

text \<open>\<open>tree_to_vine\<close>: \<open>while (tree) { move_min_to_root(tree); tree = tree->rchild; }\<close>\<close>

function tree_to_vine :: "class_t \<Rightarrow> error + class_t" where
  "tree_to_vine Null = Inr Null"
| "tree_to_vine (Node r l rc) =
     (case move_min_to_root (Node r l rc) of
        Inl e \<Rightarrow> Inl e
      | Inr Null \<Rightarrow> Inl NullDeref
      | Inr (Node r' l' rc') \<Rightarrow>
          (case tree_to_vine rc' of
             Inl e \<Rightarrow> Inl e
           | Inr v \<Rightarrow> Inr (Node r' l' v)))"
  by pat_completeness auto
termination
proof (relation "measure nodes")
  show "wf (measure nodes)" by simp
next
  fix r l rc x2 r' l' rc'
  assume a: "move_min_to_root (Node r l rc) = Inr x2" "x2 = Node r' l' rc'"
  from a have "nodes (Node r' l' rc') = nodes (Node r l rc)"
    using move_min_to_root_nodes by blast
  then show "(rc', Node r l rc) \<in> measure nodes" by simp
qed

text \<open>\<open>for (; bf > 1; bf -= 2) rotate(vine);\<close>\<close>

function rotate_loop :: "(class_t \<Rightarrow> error + class_t) \<Rightarrow> int \<Rightarrow> class_t \<Rightarrow> error + class_t" where
  "rotate_loop rot bf vine =
     (if bf > 1 then bnd (rot vine) (rotate_loop rot (bf - 2)) else Inr vine)"
  by pat_completeness auto
termination
  by (relation "measure (\<lambda>(rot, bf, vine). nat bf)") auto

declare rotate_loop.simps [simp del]

definition vine_rotations :: "class_t \<Rightarrow> error + class_t" where
  "vine_rotations vine =
     bnd (balance_factor vine) (\<lambda>bf.
       if bf < -1 then rotate_loop rotate_left (- bf) vine
       else if bf > 1 then rotate_loop rotate_right bf vine
       else Inr vine)"

lemma rotate_loop_nodes:
  assumes "\<And>u u'. rot u = Inr u' \<Longrightarrow> nodes u' = nodes u"
    and "rotate_loop rot bf t = Inr t'"
  shows "nodes t' = nodes t"
  using assms
proof (induction rot bf t arbitrary: t' rule: rotate_loop.induct)
  case (1 rot bf vine)
  show ?case
  proof (cases "bf > 1")
    case True
    from "1.prems"(2) have "bnd (rot vine) (rotate_loop rot (bf - 2)) = Inr t'"
      by (subst (asm) rotate_loop.simps) (simp add: True)
    then obtain u where u: "rot vine = Inr u"
        "rotate_loop rot (bf - 2) u = Inr t'"
      by (auto simp: bnd_def split: sum.splits)
    from "1.IH"[OF True "1.prems"(1) u(2)] "1.prems"(1)[OF u(1)]
    show ?thesis by simp
  next
    case False
    from "1.prems"(2) have "Inr vine = (Inr t' :: error + class_t)"
      by (subst (asm) rotate_loop.simps) (simp add: False)
    then show ?thesis by simp
  qed
qed

lemma vine_rotations_nodes: "vine_rotations t = Inr t' \<Longrightarrow> nodes t' = nodes t"
proof (cases t)
  case Null
  then show "vine_rotations t = Inr t' \<Longrightarrow> nodes t' = nodes t"
    by (simp add: vine_rotations_def bnd_def)
next
  case (Node r l rc)
  assume a: "vine_rotations t = Inr t'"
  let ?bf = "tree_height l - tree_height rc"
  consider "?bf < -1" | "\<not> ?bf < -1" "?bf > 1" | "\<not> ?bf < -1" "\<not> ?bf > 1" by linarith
  then show "nodes t' = nodes t"
  proof cases
    case 1
    with a Node have "rotate_loop rotate_left (- ?bf) t = Inr t'"
      by (simp add: vine_rotations_def bnd_def)
    then show ?thesis by (rule rotate_loop_nodes[rotated]) (rule rotate_left_nodes)
  next
    case 2
    with a Node have "rotate_loop rotate_right ?bf t = Inr t'"
      by (simp add: vine_rotations_def bnd_def)
    then show ?thesis by (rule rotate_loop_nodes[rotated]) (rule rotate_right_nodes)
  next
    case 3
    with a Node show ?thesis by (simp add: vine_rotations_def bnd_def)
  qed
qed

function vine_to_tree :: "class_t \<Rightarrow> error + class_t" where
  "vine_to_tree Null = Inr Null"
| "vine_to_tree (Node r l rc) =
     (case vine_rotations (Node r l rc) of
        Inl e \<Rightarrow> Inl e
      | Inr Null \<Rightarrow> Inl NullDeref
      | Inr (Node r' l' rc') \<Rightarrow>
          (case vine_to_tree l' of
             Inl e \<Rightarrow> Inl e
           | Inr l'' \<Rightarrow>
               (case vine_to_tree rc' of
                  Inl e \<Rightarrow> Inl e
                | Inr rc'' \<Rightarrow> Inr (Node r' l'' rc''))))"
  by pat_completeness auto
termination
proof (relation "measure nodes")
  show "wf (measure nodes)" by simp
next
  fix r l rc x2 r' l' rc'
  assume a: "vine_rotations (Node r l rc) = Inr x2" "x2 = Node r' l' rc'"
  from a have e: "nodes (Node r' l' rc') = nodes (Node r l rc)"
    using vine_rotations_nodes by blast
  from e show "(l', Node r l rc) \<in> measure nodes" by simp
next
  fix r l rc x2 r' l' rc' x2a
  assume a: "vine_rotations (Node r l rc) = Inr x2" "x2 = Node r' l' rc'"
  from a have e: "nodes (Node r' l' rc') = nodes (Node r l rc)"
    using vine_rotations_nodes by blast
  from e show "(rc', Node r l rc) \<in> measure nodes" by simp
qed

subsection \<open>Vines\<close>

text \<open>
  An increasing vine is the chain of nodes reached from the root through
  \<open>rchild\<close>.  The functions below never follow an \<open>lchild\<close> of a vine, so the
  chain is kept as the list of its nodes, each with its range and its left
  subtree; \<open>spine\<close> and \<open>unspine\<close> convert between the two views of the same
  memory.  A pointer to a node of the chain is the position of the node, and
  \<open>None\<close> is \<open>NULL\<close>.
\<close>

type_synonym spine = "(urange32 \<times> class_t) list"

fun spine :: "class_t \<Rightarrow> spine" where
  "spine Null = []"
| "spine (Node r l rc) = (r, l) # spine rc"

fun unspine :: "spine \<Rightarrow> class_t" where
  "unspine [] = Null"
| "unspine ((r, l) # v) = Node r l (unspine v)"

text \<open>\<open>one_away_ranges\<close>: after a merge the loop steps to the node behind the
  freed one and tests \<open>vine->rchild\<close> there, also when that pointer is \<open>NULL\<close>.\<close>

fun one_away_ranges :: "spine \<Rightarrow> error + spine" where
  "one_away_ranges [] = Inl NullDeref"
| "one_away_ranges [n] = Inr [n]"
| "one_away_ranges ((r, l) # (cr, cl) # rest) =
     (if hi r + 1 = lo cr
      then bnd (one_away_ranges rest) (\<lambda>rest'. Inr ((r\<lparr>hi := hi cr\<rparr>, l) # rest'))
      else bnd (one_away_ranges ((cr, cl) # rest)) (\<lambda>t. Inr ((r, l) # t)))"

datatype case_t = OVERLAP_ALL | OVERLAP_MULTIPLE | OVERLAP_ONE | DISJOINT | LESS_THAN_MIN

text \<open>The first loop of \<open>find_case_set_ptrs\<close>, over the nodes from position \<open>i\<close>
  on: the result is \<open>(*ln, *lpar)\<close>.\<close>

fun scan_ln :: "spine \<Rightarrow> u32 \<Rightarrow> nat \<Rightarrow> nat option \<Rightarrow> nat option \<times> nat option" where
  "scan_ln [] rlo i lpar = (None, lpar)"
| "scan_ln ((r, l) # ns) rlo i lpar =
     (if rlo \<ge> hi r then scan_ln ns rlo (Suc i) (Some i) else (Some i, lpar))"

text \<open>The second loop: the result is \<open>(*rn, *rpar, temp)\<close>.\<close>

fun scan_rn :: "spine \<Rightarrow> u32 \<Rightarrow> nat \<Rightarrow> nat option \<Rightarrow> nat option
                  \<Rightarrow> nat option \<times> nat option \<times> nat option" where
  "scan_rn [] rhi j rpar temp = (None, rpar, temp)"
| "scan_rn ((r, l) # ns) rhi j rpar temp =
     (if rhi \<ge> lo r then scan_rn ns rhi (Suc j) (Some j) rpar else (Some j, rpar, temp))"

definition range_at :: "spine \<Rightarrow> nat option \<Rightarrow> error + urange32" where
  "range_at v p = (case p of None \<Rightarrow> Inl NullDeref
                   | Some i \<Rightarrow> if i < length v then Inr (fst (v ! i)) else Inl OutOfBounds)"

definition rchild_at :: "spine \<Rightarrow> nat option \<Rightarrow> error + nat option" where
  "rchild_at v p = (case p of None \<Rightarrow> Inl NullDeref
                    | Some i \<Rightarrow> if i < length v
                                then Inr (if Suc i < length v then Some (Suc i) else None)
                                else Inl OutOfBounds)"

text \<open>\<open>find_case_set_ptrs\<close>; the callers pass \<open>lpar = rpar = NULL\<close>.  The result
  is the case with \<open>(ln, rn, lpar, rpar)\<close>.\<close>

definition find_case_set_ptrs ::
  "spine \<Rightarrow> urange32 \<Rightarrow> error + (case_t \<times> nat option \<times> nat option \<times> nat option \<times> nat option)" where
  "find_case_set_ptrs vine rng =
     (let (ln, lpar) = scan_ln vine (lo rng) 0 None;
          rn0 = (case lpar of Some p \<Rightarrow> p | None \<Rightarrow> 0);
          (rn, rpar, temp) = scan_rn (drop rn0 vine) (hi rng) rn0 None None
      in bnd (if rpar = None then bnd (range_at vine rn) (\<lambda>r. Inr (hi rng < lo r))
              else Inr False) (\<lambda>less.
         if less then Inr (LESS_THAN_MIN, ln, rn, lpar, rpar)
         else
           let rn' = (if rpar \<noteq> None then rpar else Some 0);
               rpar' = (if rpar \<noteq> None then temp else rpar)
           in if rn' = lpar then Inr (DISJOINT, ln, rn', lpar, rpar')
              else if rn' = ln then Inr (OVERLAP_ONE, ln, rn', lpar, rpar')
              else bnd (rchild_at vine rn') (\<lambda>rc.
                     if rc = None \<and> lpar = None
                     then Inr (OVERLAP_ALL, ln, rn', lpar, rpar')
                     else Inr (OVERLAP_MULTIPLE, ln, rn', lpar, rpar'))))"

subsection \<open>The nodes of a vine as memory\<close>

text \<open>
  \<open>vine_insert\<close> and \<open>vine_delete\<close> redirect \<open>rchild\<close> pointers.  For them the
  chain is laid out as a memory of nodes: node \<open>i\<close> of the chain has address
  \<open>i\<close>, a new node gets the next address, and each assignment of the source is
  one update.  \<open>unlink\<close> reads the chain off the memory again, from the root.
\<close>

record vnode =
  vrange :: urange32
  vlchild :: class_t
  vrchild :: "nat option"
  vfreed :: bool

type_synonym vmem = "vnode list"

definition link :: "spine \<Rightarrow> vmem" where
  "link v = map (\<lambda>i. \<lparr>vrange = fst (v ! i), vlchild = snd (v ! i),
                        vrchild = (if Suc i < length v then Some (Suc i) else None),
                        vfreed = False\<rparr>) [0..<length v]"

definition node_at :: "vmem \<Rightarrow> nat option \<Rightarrow> error + vnode" where
  "node_at m p =
     (case p of
        None \<Rightarrow> Inl NullDeref
      | Some i \<Rightarrow> if \<not> i < length m then Inl OutOfBounds
                  else if vfreed (m ! i) then Inl UseAfterFree
                  else Inr (m ! i))"

definition upd :: "vmem \<Rightarrow> nat option \<Rightarrow> (vnode \<Rightarrow> vnode) \<Rightarrow> error + vmem" where
  "upd m p f =
     (case p of
        None \<Rightarrow> Inl NullDeref
      | Some i \<Rightarrow> bnd (node_at m p) (\<lambda>n. Inr (m[i := f n])))"

fun walk :: "vmem \<Rightarrow> nat \<Rightarrow> nat option \<Rightarrow> error + spine" where
  "walk m fuel None = Inr []"
| "walk m 0 (Some i) = Inl OutOfFuel"
| "walk m (Suc fuel) (Some i) =
     bnd (node_at m (Some i)) (\<lambda>n.
     bnd (walk m fuel (vrchild n)) (\<lambda>rest. Inr ((vrange n, vlchild n) # rest)))"

definition unlink :: "vmem \<Rightarrow> error + spine" where
  "unlink m = walk m (length m) (Some 0)"

text \<open>\<open>class_free\<close> of a chain of the memory, and \<open>free\<close> of one node.\<close>

fun free_chain :: "vmem \<Rightarrow> nat \<Rightarrow> nat option \<Rightarrow> error + vmem" where
  "free_chain m fuel None = Inr m"
| "free_chain m 0 (Some i) = Inl OutOfFuel"
| "free_chain m (Suc fuel) (Some i) =
     bnd (node_at m (Some i)) (\<lambda>n.
     bnd (free_chain m fuel (vrchild n)) (\<lambda>m'.
     upd m' (Some i) (\<lambda>n. n\<lparr>vfreed := True\<rparr>)))"

definition class_free :: "vmem \<Rightarrow> nat option \<Rightarrow> error + vmem" where
  "class_free m p = free_chain m (length m) p"

definition free_node :: "vmem \<Rightarrow> nat option \<Rightarrow> error + vmem" where
  "free_node m p = (case p of None \<Rightarrow> Inr m
                    | Some i \<Rightarrow> upd m p (\<lambda>n. n\<lparr>vfreed := True\<rparr>))"

text \<open>\<open>(int) fmin(a, b)\<close> and \<open>(int) fmax(a, b)\<close> stored into a \<open>uint32_t\<close>: the
  conversion of the double to \<open>int\<close> is defined up to \<open>INT_MAX\<close>.\<close>

definition to_int :: "u32 \<Rightarrow> error + u32" where
  "to_int x = (if x \<le> 0x7FFFFFFF then Inr x else Inl Undefined)"

text \<open>\<open>tgt->range.lo = (int) fmin(ln->range.lo, range.lo);
  tgt->range.hi = (int) fmax(rn->range.hi, range.hi);\<close>\<close>

definition widen :: "vmem \<Rightarrow> nat option \<Rightarrow> nat option \<Rightarrow> nat option \<Rightarrow> urange32 \<Rightarrow> error + vmem" where
  "widen m tgt ln rn rng =
     bnd (node_at m ln) (\<lambda>l.
     bnd (to_int (min (lo (vrange l)) (lo rng))) (\<lambda>x.
     bnd (upd m tgt (\<lambda>n. n\<lparr>vrange := (vrange n)\<lparr>lo := x\<rparr>\<rparr>)) (\<lambda>m.
     bnd (node_at m rn) (\<lambda>r.
     bnd (to_int (max (hi (vrange r)) (hi rng))) (\<lambda>y.
     upd m tgt (\<lambda>n. n\<lparr>vrange := (vrange n)\<lparr>hi := y\<rparr>\<rparr>))))))"

text \<open>\<open>kill = a->rchild; a->rchild = b->rchild; b->rchild = NULL; class_free(kill);\<close>\<close>

definition cut :: "vmem \<Rightarrow> nat option \<Rightarrow> nat option \<Rightarrow> error + vmem" where
  "cut m a b =
     bnd (node_at m a) (\<lambda>l.
     bnd (node_at m b) (\<lambda>r.
     bnd (upd m a (\<lambda>n. n\<lparr>vrchild := vrchild r\<rparr>)) (\<lambda>m.
     bnd (upd m b (\<lambda>n. n\<lparr>vrchild := None\<rparr>)) (\<lambda>m.
     class_free m (vrchild l)))))"

definition swap_ranges :: "vmem \<Rightarrow> nat option \<Rightarrow> nat option \<Rightarrow> error + vmem" where
  "swap_ranges m left right =
     bnd (node_at m left) (\<lambda>a.
     bnd (node_at m right) (\<lambda>b.
     bnd (upd m left (\<lambda>n. n\<lparr>vrange := vrange b\<rparr>)) (\<lambda>m.
     upd m right (\<lambda>n. n\<lparr>vrange := vrange a\<rparr>))))"

definition new_node :: "urange32 \<Rightarrow> vnode" where
  "new_node rng = \<lparr>vrange = rng, vlchild = Null, vrchild = None, vfreed = False\<rparr>"

text \<open>\<open>tail = a->rchild; a->rchild = class_construct(rng); a->rchild->rchild = tail;\<close>\<close>

definition insert_after :: "vmem \<Rightarrow> nat option \<Rightarrow> urange32 \<Rightarrow> error + vmem" where
  "insert_after m a rng =
     bnd (node_at m a) (\<lambda>r.
     bnd (upd (m @ [new_node rng]) a (\<lambda>n. n\<lparr>vrchild := Some (length m)\<rparr>)) (\<lambda>m'.
     upd m' (Some (length m)) (\<lambda>n. n\<lparr>vrchild := vrchild r\<rparr>)))"

definition vine_insert :: "spine \<Rightarrow> urange32 \<Rightarrow> error + spine" where
  "vine_insert vine rng =
     bnd (find_case_set_ptrs vine rng) (\<lambda>(c, ln, rn, lpar, rpar).
     bnd (case c of
            OVERLAP_ALL \<Rightarrow>
              bnd (widen (link vine) (Some 0) ln rn rng) (\<lambda>m.
              bnd (node_at m (Some 0)) (\<lambda>root.
              bnd (class_free m (vrchild root)) (\<lambda>m.
              bnd (upd m (Some 0) (\<lambda>n. n\<lparr>vrchild := None\<rparr>)) unlink)))
          | OVERLAP_MULTIPLE \<Rightarrow>
              bnd (widen (link vine) ln ln rn rng) (\<lambda>m.
              bnd (cut m ln rn) unlink)
          | OVERLAP_ONE \<Rightarrow>
              bnd (widen (link vine) ln ln rn rng) unlink
          | DISJOINT \<Rightarrow>
              bnd (insert_after (link vine) rn rng) unlink
          | LESS_THAN_MIN \<Rightarrow>
              (case unspine vine of
                 Null \<Rightarrow> Inl NullDeref
               | Node r l rc \<Rightarrow>
                   bnd (rotate_right (Node r (Node rng Null Null) rc)) (\<lambda>t. Inr (spine t))))
       one_away_ranges)"

text \<open>The part of \<open>vine_delete\<close> shared by \<open>OVERLAP_ALL\<close> (when the range does
  not cover the whole vine) and \<open>OVERLAP_MULTIPLE\<close>.\<close>

definition delete_multiple ::
  "vmem \<Rightarrow> urange32 \<Rightarrow> nat option \<Rightarrow> nat option \<Rightarrow> nat option \<Rightarrow> nat option \<Rightarrow> error + vmem" where
  "delete_multiple m rng ln rn lpar rpar =
     bnd (node_at m rn) (\<lambda>r.
     bnd (if hi rng \<le> hi (vrange r)
          then bnd (upd m rn (\<lambda>n. n\<lparr>vrange := (vrange n)\<lparr>lo := hi rng\<rparr>\<rparr>)) (\<lambda>m. Inr (m, rpar))
          else Inr (m, rn)) (\<lambda>(m, rn).
     bnd (node_at m ln) (\<lambda>l.
       if lo rng \<le> lo (vrange l) then
         if lpar = None then
           bnd (node_at m rn) (\<lambda>r.
           bnd (swap_ranges m ln (vrchild r)) (\<lambda>m.
           bnd (node_at m ln) (\<lambda>l.
           bnd (node_at m rn) (\<lambda>r.
           bnd (node_at m (vrchild r)) (\<lambda>t.
           bnd (upd m ln (\<lambda>n. n\<lparr>vrchild := vrchild t\<rparr>)) (\<lambda>m.
           bnd (upd m (vrchild r) (\<lambda>n. n\<lparr>vrchild := None\<rparr>)) (\<lambda>m.
           class_free m (vrchild l))))))))
         else if lpar \<noteq> rn then cut m lpar rn else Inr m
       else
         bnd (upd m ln (\<lambda>n. n\<lparr>vrange := (vrange n)\<lparr>hi := lo rng\<rparr>\<rparr>)) (\<lambda>m.
         if ln \<noteq> rn then cut m ln rn else Inr m))))"

definition delete_one ::
  "vmem \<Rightarrow> urange32 \<Rightarrow> nat option \<Rightarrow> nat option \<Rightarrow> error + vmem" where
  "delete_one m rng ln lpar =
     bnd (node_at m ln) (\<lambda>l.
       if lo rng \<le> lo (vrange l) \<and> hi rng \<ge> hi (vrange l) then
         if lpar = None \<and> vrchild l = None then
           upd m (Some 0) (\<lambda>n. n\<lparr>vrange := (vrange n)\<lparr>lo := EmptyVal\<rparr>\<rparr>)
         else
           bnd (if lpar = None then bnd (swap_ranges m ln (vrchild l)) (\<lambda>m. Inr (m, ln))
                else Inr (m, lpar)) (\<lambda>(m, ln).
           bnd (node_at m ln) (\<lambda>l.
           bnd (node_at m (vrchild l)) (\<lambda>k.
           bnd (upd m ln (\<lambda>n. n\<lparr>vrchild := vrchild k\<rparr>)) (\<lambda>m.
           bnd (upd m (vrchild l) (\<lambda>n. n\<lparr>vrchild := None\<rparr>)) (\<lambda>m.
           free_node m (vrchild l))))))
       else if lo rng > lo (vrange l) \<and> hi rng < hi (vrange l) then
         bnd (upd m ln (\<lambda>n. n\<lparr>vrange := (vrange n)\<lparr>hi := lo rng - 1\<rparr>\<rparr>)) (\<lambda>m.
         insert_after m ln \<lparr>lo = hi rng + 1, hi = hi (vrange l)\<rparr>)
       else if lo rng \<le> lo (vrange l) then
         upd m ln (\<lambda>n. n\<lparr>vrange := (vrange n)\<lparr>lo := hi rng\<rparr>\<rparr>)
       else
         upd m ln (\<lambda>n. n\<lparr>vrange := (vrange n)\<lparr>hi := lo rng\<rparr>\<rparr>))"

definition vine_delete :: "spine \<Rightarrow> urange32 \<Rightarrow> error + spine" where
  "vine_delete vine rng =
     bnd (find_case_set_ptrs vine rng) (\<lambda>(c, ln, rn, lpar, rpar).
       let m = link vine in
       case c of
         LESS_THAN_MIN \<Rightarrow> Inr vine
       | DISJOINT \<Rightarrow> Inr vine
       | OVERLAP_ALL \<Rightarrow>
           bnd (node_at m ln) (\<lambda>l.
           bnd (if lo rng \<le> lo (vrange l)
                then bnd (node_at m rn) (\<lambda>r. Inr (hi rng \<ge> hi (vrange r)))
                else Inr False) (\<lambda>covers.
             if covers then
               bnd (upd m (Some 0) (\<lambda>n. n\<lparr>vrange := (vrange n)\<lparr>lo := EmptyVal\<rparr>\<rparr>)) (\<lambda>m.
               bnd (node_at m (Some 0)) (\<lambda>root.
               bnd (class_free m (vrchild root)) (\<lambda>m.
               bnd (upd m (Some 0) (\<lambda>n. n\<lparr>vrchild := None\<rparr>)) unlink)))
             else bnd (delete_multiple m rng ln rn lpar rpar) unlink))
       | OVERLAP_MULTIPLE \<Rightarrow> bnd (delete_multiple m rng ln rn lpar rpar) unlink
       | OVERLAP_ONE \<Rightarrow> bnd (delete_one m rng ln lpar) unlink)"

subsection \<open>Public insertion and deletion\<close>

text \<open>The functions take the class the handle points at and return the class it
  points at afterwards.\<close>

definition set_range :: "class_t \<Rightarrow> urange32 \<Rightarrow> error + class_t" where
  "set_range tree rng = (case tree of Null \<Rightarrow> Inl NullDeref | Node r l rc \<Rightarrow> Inr (Node rng l rc))"

definition has_rchild :: "class_t \<Rightarrow> error + bool" where
  "has_rchild tree = (case tree of Null \<Rightarrow> Inl NullDeref | Node r l rc \<Rightarrow> Inr (rc \<noteq> Null))"

definition class_insert_range :: "class_t \<Rightarrow> urange32 \<Rightarrow> error + class_t" where
  "class_insert_range tree rng =
     (if tree = Null \<or> \<not> lo rng \<le> hi rng then Inl AssertFail
      else bnd (EmptyTree tree) (\<lambda>e.
        if e then set_range tree rng
        else
          bnd (tree_to_vine tree) (\<lambda>v.
          bnd (vine_insert (spine v) rng) (\<lambda>v'.
          bnd (has_rchild (unspine v')) (\<lambda>b.
            if b then vine_to_tree (unspine v') else Inr (unspine v'))))))"

definition class_insert_codepoint :: "class_t \<Rightarrow> u32 \<Rightarrow> error + class_t" where
  "class_insert_codepoint tree cp =
     (if tree = Null then Inl AssertFail else class_insert_range tree \<lparr>lo = cp, hi = cp\<rparr>)"

definition class_delete_range :: "class_t \<Rightarrow> urange32 \<Rightarrow> error + class_t" where
  "class_delete_range tree rng =
     (if tree = Null \<or> \<not> lo rng \<le> hi rng then Inl AssertFail
      else bnd (EmptyTree tree) (\<lambda>e.
        if e then Inr tree
        else
          bnd (tree_to_vine tree) (\<lambda>v.
          bnd (vine_delete (spine v) rng) (\<lambda>v'.
          bnd (EmptyTree (unspine v')) (\<lambda>e'.
          bnd (has_rchild (unspine v')) (\<lambda>b.
            if \<not> e' \<and> b then vine_to_tree (unspine v') else Inr (unspine v')))))))"

definition class_delete_codepoint :: "class_t \<Rightarrow> u32 \<Rightarrow> error + class_t" where
  "class_delete_codepoint tree cp =
     (if tree = Null then Inl AssertFail else class_delete_range tree \<lparr>lo = cp, hi = cp\<rparr>)"

subsection \<open>Searching\<close>

fun class_search :: "class_t \<Rightarrow> u32 \<Rightarrow> bool" where
  "class_search Null cp = False"
| "class_search (Node r l rc) cp =
     (if cp < lo r then class_search l cp
      else if cp > hi r then class_search rc cp
      else True)"

subsection \<open>Set operations\<close>

fun union_recurse :: "spine \<Rightarrow> class_t \<Rightarrow> error + spine" where
  "union_recurse left Null = Inr left"
| "union_recurse left (Node r l rc) =
     bnd (vine_insert left r) (\<lambda>left.
     bnd (union_recurse left l) (\<lambda>left.
     union_recurse left rc))"

text \<open>The two operands are distinct objects (\<open>assert(left != right)\<close>); the
  right one is only read.\<close>

definition class_union :: "class_t \<Rightarrow> class_t \<Rightarrow> error + class_t" where
  "class_union left right =
     (case right of
        Null \<Rightarrow> Inl AssertFail
      | Node rr rl rrc \<Rightarrow>
          if left = Null then Inl AssertFail
          else if lo rr = EmptyVal then Inr left
          else
            bnd (tree_to_vine left) (\<lambda>v.
            bnd (EmptyTree v) (\<lambda>e.
            bnd (if e then
                   bnd (set_range v rr) (\<lambda>v.
                   bnd (union_recurse (spine v) rl) (\<lambda>left.
                   union_recurse left rrc))
                 else union_recurse (spine v) right) (\<lambda>left.
            vine_to_tree (unspine left)))))"

fun difference_recurse :: "spine \<Rightarrow> class_t \<Rightarrow> error + spine" where
  "difference_recurse left Null = Inr left"
| "difference_recurse left (Node r l rc) =
     bnd (vine_delete left r) (\<lambda>left.
     bnd (difference_recurse left l) (\<lambda>left.
     difference_recurse left rc))"

definition class_difference :: "class_t \<Rightarrow> class_t \<Rightarrow> error + class_t" where
  "class_difference left right =
     (case right of
        Null \<Rightarrow> Inl AssertFail
      | Node rr rl rrc \<Rightarrow>
          if left = Null then Inl AssertFail
          else if lo rr = EmptyVal then Inr left
          else
            bnd (tree_to_vine left) (\<lambda>v.
            bnd (EmptyTree v) (\<lambda>e.
            bnd (if e then
                   bnd (set_range v rr) (\<lambda>v.
                   bnd (difference_recurse (spine v) rl) (\<lambda>left.
                   difference_recurse left rrc))
                 else difference_recurse (spine v) right) (\<lambda>left.
            vine_to_tree (unspine left)))))"

text \<open>\<open>class_intersection\<close> consists of its assertion.\<close>

definition class_intersection :: "class_t \<Rightarrow> class_t \<Rightarrow> error + class_t" where
  "class_intersection left right =
     (if left = Null \<or> right = Null then Inl AssertFail else Inr left)"

subsection \<open>Other public functions\<close>

definition class_empty :: "class_t \<Rightarrow> error + bool" where
  "class_empty tree = (if tree = Null then Inl AssertFail else EmptyTree tree)"

text \<open>The sum of \<open>class_cardinality\<close> is formed in \<open>uint32_t\<close> (the \<open>int\<close> results
  of the recursive calls are converted) and returned as \<open>int\<close>.\<close>

fun cardinality_u32 :: "class_t \<Rightarrow> u32" where
  "cardinality_u32 Null = 0"
| "cardinality_u32 (Node r l rc) =
     (if lo r = EmptyVal then 0
      else (hi r - lo r + 1) + cardinality_u32 l + cardinality_u32 rc)"

definition class_cardinality :: "class_t \<Rightarrow> int" where
  "class_cardinality tree = sint (cardinality_u32 tree)"

fun class_size :: "class_t \<Rightarrow> int" where
  "class_size Null = 0"
| "class_size (Node r l rc) =
     (if lo r = EmptyVal then 0 else 1 + class_size l + class_size rc)"

definition class_new :: class_t where
  "class_new = Node \<lparr>lo = EmptyVal, hi = 0\<rparr> Null Null"

text \<open>The ranges in the order in which \<open>hook_inorder\<close> prints them.\<close>

fun hook_inorder :: "class_t \<Rightarrow> urange32 list" where
  "hook_inorder Null = []"
| "hook_inorder (Node r l rc) = hook_inorder l @ r # hook_inorder rc"

section \<open>range.c: arrays of group captures\<close>

text \<open>
  A \<open>range_t\<close> is an array of \<open>group_t\<close>, each a pair of pointers into the
  input (\<open>None\<close> is \<open>NULL\<close>).  The arrays live in a heap, since a subroutine call
  works on a copy of the array of its caller and the stack keeps pointers to
  such copies: address \<open>a\<close> is cell \<open>a\<close> of the heap, \<open>range_new\<close> and
  \<open>range_copy\<close> take the next cell, and \<open>range_free\<close> empties a cell.
\<close>

record group_t =
  gbegin :: "int option"
  gend :: "int option"

type_synonym range_t = "group_t list"
type_synonym heap = "range_t option list"

definition deref :: "heap \<Rightarrow> nat \<Rightarrow> error + range_t" where
  "deref h a = (if \<not> a < length h then Inl OutOfBounds
                else case h ! a of None \<Rightarrow> Inl UseAfterFree | Some ra \<Rightarrow> Inr ra)"

text \<open>\<open>range_group\<close>: the slot of the array, or \<open>NULL\<close>.\<close>

definition range_group :: "heap \<Rightarrow> nat \<Rightarrow> int \<Rightarrow> error + nat option" where
  "range_group h ra index =
     bnd (deref h ra) (\<lambda>arr.
       Inr (if index < 0 \<or> index \<ge> int (length arr) then None else Some (nat index)))"

definition slot_read :: "heap \<Rightarrow> nat \<Rightarrow> nat option \<Rightarrow> error + group_t" where
  "slot_read h ra slot =
     (case slot of None \<Rightarrow> Inl NullDeref
      | Some i \<Rightarrow> bnd (deref h ra) (\<lambda>arr.
          if i < length arr then Inr (arr ! i) else Inl OutOfBounds))"

definition slot_write :: "heap \<Rightarrow> nat \<Rightarrow> nat option \<Rightarrow> group_t \<Rightarrow> error + heap" where
  "slot_write h ra slot g =
     (case slot of None \<Rightarrow> Inl NullDeref
      | Some i \<Rightarrow> bnd (deref h ra) (\<lambda>arr.
          if i < length arr then Inr (h[ra := Some (arr[i := g])]) else Inl OutOfBounds))"

definition range_new :: "int \<Rightarrow> heap \<Rightarrow> error + (nat \<times> heap)" where
  "range_new sz h =
     (if \<not> sz \<ge> 1 then Inl AssertFail
      else Inr (length h, h @ [Some (replicate (nat sz) \<lparr>gbegin = None, gend = None\<rparr>)]))"

definition range_copy :: "nat \<Rightarrow> heap \<Rightarrow> error + (nat \<times> heap)" where
  "range_copy that h = bnd (deref h that) (\<lambda>arr. Inr (length h, h @ [Some arr]))"

definition range_free :: "nat option \<Rightarrow> heap \<Rightarrow> error + heap" where
  "range_free ra h =
     (case ra of None \<Rightarrow> Inr h
      | Some a \<Rightarrow> bnd (deref h a) (\<lambda>arr. Inr (h[a := None])))"

section \<open>bts.c: the backtrack stack\<close>

text \<open>A stack is the list of its states, the top first.  A stack is owned by
  one holder at a time (a local variable or the \<open>inner\<close> field of one state), so
  it is passed as a value; \<open>nest\<close> is an address of the heap.\<close>

datatype state_t = State (s_index: nat) (s_matches: u32) (s_str: int)
  (s_inner: "state_t list option") (s_nest: "nat option") (s_nbr: nat) (s_recursive: bool)

type_synonym bts_t = "state_t list"

definition bts_push :: "bts_t \<Rightarrow> nat \<Rightarrow> int \<Rightarrow> u32 \<Rightarrow> bool \<Rightarrow> bts_t option \<Rightarrow> nat \<Rightarrow> bts_t" where
  "bts_push obj ind str mat rc inn nbr = State ind mat str inn None nbr rc # obj"

definition bts_set_top :: "bts_t \<Rightarrow> nat \<Rightarrow> u32 \<Rightarrow> nat option \<Rightarrow> error + bts_t" where
  "bts_set_top obj index matches nest =
     (case obj of [] \<Rightarrow> Inl AssertFail
      | State i m s inn ne nbr rc # rest \<Rightarrow> Inr (State index matches s inn nest nbr rc # rest))"

fun bts_free :: "bts_t \<Rightarrow> heap \<Rightarrow> error + heap" where
  "bts_free [] h = Inr h"
| "bts_free (State i m s inn nest nbr rc # rest) h =
     (if rc then
        bnd (case inn of None \<Rightarrow> Inr h | Some st \<Rightarrow> bts_free st h) (\<lambda>h.
        bnd (range_free nest h) (\<lambda>h.
        bts_free rest h))
      else bts_free rest h)"

section \<open>atom.c and core.c: the matcher graph\<close>

text \<open>
  A core is its list of branches (the chain through \<open>next\<close>) and its group
  number; a branch is the list of its atoms, \<open>load\<close> being the length.  An atom
  has its position in the branch, its type with the data of the type, the two
  options \<open>Invert\<close> and \<open>Greedy\<close>, and its range of repetitions.  A subroutine
  atom points at a core of the same graph, the one that \<open>core_find_core\<close> finds
  for its group number when the graph is complete; it is kept as that number
  and looked up in the root core when the atom is matched.
\<close>

datatype atom_info = Uninitialized | Class class_t | String "byte list" | Group core_t
  | Atomic core_t | Backreference int | Subroutine int | LookAhead core_t
  | WordAnchor | EdgeAnchor
and atom_t = Atom (a_index: nat) (a_info: atom_info) (a_invert: bool) (a_greedy: bool)
  (a_range: urange32)
and core_t = Core (c_start: "atom_t list list") (c_index: int)

text \<open>\<open>atom_has_group\<close> with the nested core.\<close>

fun atom_group :: "atom_t \<Rightarrow> core_t option" where
  "atom_group (Atom i (Group c) iv g r) = Some c"
| "atom_group (Atom i (Atomic c) iv g r) = Some c"
| "atom_group (Atom i (LookAhead c) iv g r) = Some c"
| "atom_group (Atom i _ iv g r) = None"

lemma atom_group_size:
  assumes "atom_group a = Some c" and "br \<in> set brs" and "a \<in> set br"
  shows "size c < Suc (size_list (size_list size) brs)"
proof -
  from assms(1) have "size c < size a"
    by (cases a rule: atom_group.cases) auto
  also from assms(3) have "size a \<le> size_list size br"
    by (simp add: size_list_estimation')
  also from assms(2) have "size_list size br \<le> size_list (size_list size) brs"
    by (simp add: size_list_estimation')
  finally show ?thesis by simp
qed

text \<open>\<open>_core_groups\<close>: the highest group number in the core.\<close>

function core_groups0 :: "core_t \<Rightarrow> int" where
  "core_groups0 (Core brs idx) =
     fold (\<lambda>a high. case atom_group a of
                       Some c \<Rightarrow> (let nxt = core_groups0 c in if nxt > high then nxt else high)
                     | None \<Rightarrow> high) (concat brs) idx"
  by pat_completeness auto
termination
  by (relation "measure size") (auto simp: atom_group_size)

definition core_groups :: "core_t \<Rightarrow> int" where
  "core_groups obj = core_groups0 obj + 1"

function core_find_core :: "core_t \<Rightarrow> int \<Rightarrow> core_t option" where
  "core_find_core (Core brs idx) index =
     (if index = idx then Some (Core brs idx)
      else fold (\<lambda>a found. case found of
                   Some r \<Rightarrow> Some r
                 | None \<Rightarrow> (case atom_group a of
                              Some c \<Rightarrow> core_find_core c index
                            | None \<Rightarrow> None)) (concat brs) None)"
  by pat_completeness auto
termination
  by (relation "measure (\<lambda>(c, i). size c)") (auto simp: atom_group_size)

text \<open>What a match reads but does not change: the input with its terminating
  zero byte, the root core of the pattern, and the class \<open>word_characters\<close>.\<close>

record env =
  input :: "byte list"
  pattern_core :: core_t
  word_characters :: class_t

subsection \<open>Single matches\<close>

text \<open>A result of type \<open>int option\<close> is a \<open>char*\<close>: \<open>None\<close> is \<open>NULL\<close>.\<close>

definition TRUe :: "atom_t \<Rightarrow> int \<Rightarrow> int option" where
  "TRUe atom str = (if a_invert atom then None else Some str)"

definition FALSe :: "atom_t \<Rightarrow> int \<Rightarrow> int option" where
  "FALSe atom str = (if a_invert atom then Some str else None)"

fun match_string :: "byte list \<Rightarrow> byte list \<Rightarrow> int \<Rightarrow> error + int option" where
  "match_string b [] str = Inr (Some str)"
| "match_string b (m # ms) str =
     (case rd b str of
        None \<Rightarrow> Inl OutOfBounds
      | Some c \<Rightarrow> if c \<noteq> m then Inr None else match_string b ms (str + 1))"

text \<open>The loop of \<open>match_reference\<close>.\<close>

function reference_loop :: "byte list \<Rightarrow> int \<Rightarrow> int \<Rightarrow> int \<Rightarrow> error + int option" where
  "reference_loop b begin en str =
     (if begin \<noteq> en then
        (case rd b str of
           None \<Rightarrow> Inl OutOfBounds
         | Some c \<Rightarrow>
             if c = 0 then Inr None
             else (case rd b begin of
                     None \<Rightarrow> Inl OutOfBounds
                   | Some d \<Rightarrow> if d \<noteq> c then Inr None
                               else reference_loop b (begin + 1) en (str + 1)))
      else Inr (Some str))"
  by pat_completeness auto
termination
  by (relation "measure (\<lambda>(b, begin, en, str). nat (int (length b) - str))")
     (auto simp: rd_def split: if_splits)

declare reference_loop.simps [simp del]

definition match_reference :: "env \<Rightarrow> atom_t \<Rightarrow> int \<Rightarrow> nat \<Rightarrow> heap \<Rightarrow> error + int option" where
  "match_reference e atom str gr h =
     (case a_info atom of
        Backreference index \<Rightarrow>
          bnd (range_group h gr index) (\<lambda>slot.
          bnd (slot_read h gr slot) (\<lambda>g.
            case gbegin g of
              None \<Rightarrow> Inr None
            | Some begin \<Rightarrow>
                (case gend g of
                   None \<Rightarrow> Inl NullDeref
                 | Some en \<Rightarrow> reference_loop (input e) begin en str)))
      | _ \<Rightarrow> Inl AssertFail)"

text \<open>The \<open>char\<close> read from the input is passed to \<open>class_search\<close> as a
  \<open>uint32_t\<close>; with a signed \<open>char\<close> the conversion extends the sign.\<close>

definition match_class :: "env \<Rightarrow> atom_t \<Rightarrow> int \<Rightarrow> error + int option" where
  "match_class e atom str =
     (case a_info atom of
        Class c \<Rightarrow>
          bnd (decode (input e) str) (\<lambda>(cp, en).
            if class_search c cp then Inr (TRUe atom en) else Inr (FALSe atom en))
      | _ \<Rightarrow> Inl AssertFail)"

definition match_wordanchor :: "env \<Rightarrow> atom_t \<Rightarrow> int \<Rightarrow> int \<Rightarrow> error + int option" where
  "match_wordanchor e atom str head =
     (case rd (input e) str of
        None \<Rightarrow> Inl OutOfBounds
      | Some c \<Rightarrow>
          (case rd (input e) (str - 1) of
             None \<Rightarrow> Inl OutOfBounds
           | Some p \<Rightarrow>
               let curr_is_word = class_search (word_characters e) (scast c);
                   prev_is_word = class_search (word_characters e) (scast p);
                   curr_is_head = (str = head);
                   curr_is_end = (c = 0)
               in if curr_is_head \<and> curr_is_end then Inr (FALSe atom str)
                  else if curr_is_head then
                    (if curr_is_word then Inr (TRUe atom str) else Inr (FALSe atom str))
                  else if curr_is_end then
                    (if prev_is_word then Inr (TRUe atom str) else Inr (FALSe atom str))
                  else if curr_is_word then
                    Inr (if prev_is_word then FALSe atom str else TRUe atom str)
                  else
                    Inr (if prev_is_word then TRUe atom str else FALSe atom str)))"

definition match_edgeanchor :: "env \<Rightarrow> atom_t \<Rightarrow> int \<Rightarrow> int \<Rightarrow> error + int option" where
  "match_edgeanchor e atom str head =
     (if a_invert atom then Inr (if str = head then Some str else None)
      else (case rd (input e) str of
              None \<Rightarrow> Inl OutOfBounds
            | Some c \<Rightarrow> Inr (if c = 0 then Some str else None)))"

text \<open>
  \<open>core_match\<close> calls itself through the atoms with a nested core.  The
  functions of atom.c take the \<open>core_match\<close> they call as the argument \<open>cm\<close>:
  it gets the core, \<open>str\<close>, \<open>outer\<close>, \<open>groups\<close>, \<open>stack\<close>, \<open>nbr\<close>, \<open>head\<close> and the
  heap, and returns the array it returns together with \<open>*back\<close> (\<open>None\<close> for
  \<open>NULL\<close>), the stack \<open>outer\<close> and the heap.
\<close>

type_synonym cm_result = "error + ((nat \<times> int) option \<times> bts_t option \<times> heap)"

type_synonym cm_t =
  "core_t \<Rightarrow> int \<Rightarrow> bts_t option \<Rightarrow> nat option \<Rightarrow> bts_t option \<Rightarrow> nat \<Rightarrow> int \<Rightarrow> heap \<Rightarrow> cm_result"

definition atom_core :: "env \<Rightarrow> atom_t \<Rightarrow> error + core_t" where
  "atom_core e atom =
     (case a_info atom of
        Group c \<Rightarrow> Inr c
      | Atomic c \<Rightarrow> Inr c
      | LookAhead c \<Rightarrow> Inr c
      | Subroutine index \<Rightarrow>
          (if index < 0 then Inl AssertFail
           else case core_find_core (pattern_core e) index of
                  None \<Rightarrow> Inl AssertFail
                | Some c \<Rightarrow> Inr c)
      | _ \<Rightarrow> Inl AssertFail)"

definition match_lookahead ::
  "cm_t \<Rightarrow> env \<Rightarrow> atom_t \<Rightarrow> int \<Rightarrow> nat \<Rightarrow> int \<Rightarrow> heap \<Rightarrow> error + (int option \<times> heap)" where
  "match_lookahead cm e atom str gr head h =
     bnd (atom_core e atom) (\<lambda>c.
     bnd (cm c str None (Some gr) None 0 head h) (\<lambda>(r, outer, h).
       case r of
         Some (g, en) \<Rightarrow> Inr (TRUe atom str, h)
       | None \<Rightarrow> Inr (FALSe atom str, h)))"

definition match_subroutine ::
  "cm_t \<Rightarrow> env \<Rightarrow> atom_t \<Rightarrow> u32 \<Rightarrow> int \<Rightarrow> nat \<Rightarrow> bts_t \<Rightarrow> bts_t option \<Rightarrow> nat \<Rightarrow> int
     \<Rightarrow> nat option \<Rightarrow> heap \<Rightarrow> error + (int option \<times> bts_t \<times> heap)" where
  "match_subroutine cm e atom matches str gr stack inner nbr head nest h =
     bnd (case nest of None \<Rightarrow> range_copy gr h | Some n \<Rightarrow> Inr (n, h)) (\<lambda>(temp, h).
     bnd (atom_core e atom) (\<lambda>c.
     bnd (cm c str (Some stack) (Some temp) inner nbr head h) (\<lambda>(r, outer, h).
       case outer of
         None \<Rightarrow> Inl NullDeref
       | Some stack \<Rightarrow>
           (case r of
              None \<Rightarrow> bnd (range_free (Some temp) h) (\<lambda>h. Inr (None, stack, h))
            | Some (nest, en) \<Rightarrow>
                (case stack of
                   [] \<Rightarrow> Inl AssertFail
                 | tp # rest \<Rightarrow>
                     if s_inner tp = None
                     then bnd (range_free (Some nest) h) (\<lambda>h. Inr (Some en, rest, h))
                     else bnd (bts_set_top stack (a_index atom) matches (Some nest))
                            (\<lambda>stack. Inr (Some en, stack, h)))))))"

definition match_atomic ::
  "cm_t \<Rightarrow> env \<Rightarrow> atom_t \<Rightarrow> int \<Rightarrow> nat \<Rightarrow> int \<Rightarrow> heap \<Rightarrow> error + (int option \<times> heap)" where
  "match_atomic cm e atom str gr head h =
     bnd (atom_core e atom) (\<lambda>c.
     bnd (cm c str None (Some gr) None 0 head h) (\<lambda>(r, outer, h).
       case r of
         Some (g, en) \<Rightarrow> Inr (Some en, h)
       | None \<Rightarrow> Inr (None, h)))"

definition match_group ::
  "cm_t \<Rightarrow> env \<Rightarrow> atom_t \<Rightarrow> u32 \<Rightarrow> int \<Rightarrow> nat \<Rightarrow> bts_t \<Rightarrow> bts_t option \<Rightarrow> nat \<Rightarrow> int
     \<Rightarrow> heap \<Rightarrow> error + (int option \<times> bts_t \<times> heap)" where
  "match_group cm e atom matches str gr stack inner nbr head h =
     bnd (atom_core e atom) (\<lambda>c.
     bnd (cm c str (Some stack) (Some gr) inner nbr head h) (\<lambda>(r, outer, h).
       case outer of
         None \<Rightarrow> Inl NullDeref
       | Some stack \<Rightarrow>
           (case r of
              None \<Rightarrow> Inr (None, stack, h)
            | Some (g, en) \<Rightarrow>
                (case stack of
                   [] \<Rightarrow> Inl AssertFail
                 | tp # rest \<Rightarrow>
                     if s_inner tp = None then Inr (Some en, rest, h)
                     else bnd (bts_set_top stack (a_index atom) matches None)
                            (\<lambda>stack. Inr (Some en, stack, h))))))"

subsection \<open>Repetition\<close>

definition DoMatch ::
  "cm_t \<Rightarrow> env \<Rightarrow> atom_t \<Rightarrow> u32 \<Rightarrow> int \<Rightarrow> nat \<Rightarrow> bts_t \<Rightarrow> bts_t option \<Rightarrow> nat \<Rightarrow> int
     \<Rightarrow> nat option \<Rightarrow> heap \<Rightarrow> error + (int option \<times> bts_t \<times> heap)" where
  "DoMatch cm e atom matches str gr stack inner nbr head nest h =
     (case a_info atom of
        Class c \<Rightarrow> bnd (match_class e atom str) (\<lambda>r. Inr (r, stack, h))
      | Backreference i \<Rightarrow> bnd (match_reference e atom str gr h) (\<lambda>r. Inr (r, stack, h))
      | Group c \<Rightarrow> match_group cm e atom matches str gr stack inner nbr head h
      | Subroutine i \<Rightarrow> match_subroutine cm e atom matches str gr stack inner nbr head nest h
      | Atomic c \<Rightarrow> bnd (match_atomic cm e atom str gr head h) (\<lambda>(r, h). Inr (r, stack, h))
      | _ \<Rightarrow> Inl AssertFail)"

text \<open>The loop of \<open>greedy_match\<close>; the first argument bounds the number of
  iterations.\<close>

fun greedy_loop ::
  "nat \<Rightarrow> cm_t \<Rightarrow> env \<Rightarrow> atom_t \<Rightarrow> nat \<Rightarrow> int \<Rightarrow> nat option
     \<Rightarrow> int \<Rightarrow> u32 \<Rightarrow> bool \<Rightarrow> bts_t option \<Rightarrow> nat \<Rightarrow> bts_t \<Rightarrow> heap \<Rightarrow> error + (bts_t \<times> heap)" where
  "greedy_loop 0 cm e atom gr head nest str matches recursive inner nbr stack h = Inl OutOfFuel"
| "greedy_loop (Suc k) cm e atom gr head nest str matches recursive inner nbr stack h =
     (let stack = (if matches \<ge> lo (a_range atom) \<and> matches \<le> hi (a_range atom)
                   then bts_push stack (a_index atom + 1) str 0 False None 0 else stack)
      in bnd (if matches \<ge> hi (a_range atom) then Inr True
              else case rd (input e) str of
                     None \<Rightarrow> Inl OutOfBounds
                   | Some c \<Rightarrow> Inr (c = 0)) (\<lambda>stop.
         if stop then Inr (stack, h)
         else
           bnd (DoMatch cm e atom matches str gr stack inner nbr head nest h) (\<lambda>(r, stack, h).
             case r of
               None \<Rightarrow> Inr (stack, h)
             | Some str \<Rightarrow>
                 if recursive
                 then greedy_loop k cm e atom gr head nest str (matches + 1) False None 0 stack h
                 else greedy_loop k cm e atom gr head nest str (matches + 1) recursive inner nbr
                        stack h)))"

definition greedy_match ::
  "nat \<Rightarrow> cm_t \<Rightarrow> env \<Rightarrow> atom_t \<Rightarrow> bts_t \<Rightarrow> nat \<Rightarrow> int \<Rightarrow> heap \<Rightarrow> error + (bts_t \<times> heap)" where
  "greedy_match n cm e atom stack gr head h =
     (case stack of
        [] \<Rightarrow> Inl AssertFail
      | tp # rest \<Rightarrow>
          greedy_loop n cm e atom gr head (s_nest tp) (s_str tp) (s_matches tp)
            (s_recursive tp) (s_inner tp) (s_nbr tp) rest h)"

fun lazy_loop ::
  "nat \<Rightarrow> cm_t \<Rightarrow> env \<Rightarrow> atom_t \<Rightarrow> nat \<Rightarrow> int \<Rightarrow> nat option
     \<Rightarrow> int \<Rightarrow> u32 \<Rightarrow> bool \<Rightarrow> bts_t option \<Rightarrow> nat \<Rightarrow> bts_t \<Rightarrow> heap \<Rightarrow> error + (bts_t \<times> heap)" where
  "lazy_loop 0 cm e atom gr head nest str matches recursive inner nbr stack h = Inl OutOfFuel"
| "lazy_loop (Suc k) cm e atom gr head nest str matches recursive inner nbr stack h =
     bnd (if matches > hi (a_range atom) then Inr True
          else case rd (input e) str of
                 None \<Rightarrow> Inl OutOfBounds
               | Some c \<Rightarrow> Inr (c = 0)) (\<lambda>stop.
       if stop then Inr (stack, h)
       else
         let temp = str in
         bnd (if matches \<noteq> hi (a_range atom)
              then DoMatch cm e atom matches str gr stack inner nbr head nest h
              else Inr (Some str, stack, h)) (\<lambda>(r, stack, h).
           let stack = (if r \<noteq> None \<and> matches \<ge> lo (a_range atom) \<and> matches < hi (a_range atom)
                        then (case r of
                                Some str \<Rightarrow> bts_push stack (a_index atom) str (matches + 1) False None 0
                              | None \<Rightarrow> stack)
                        else stack)
           in if matches \<ge> lo (a_range atom) \<and> matches \<le> hi (a_range atom)
              then Inr (bts_push stack (a_index atom + 1) temp 0 False None 0, h)
              else
                (case r of
                   None \<Rightarrow> Inr (stack, h)
                 | Some str \<Rightarrow>
                     if recursive
                     then lazy_loop k cm e atom gr head nest str (matches + 1) False None 0 stack h
                     else lazy_loop k cm e atom gr head nest str (matches + 1) recursive inner nbr
                            stack h)))"

definition lazy_match ::
  "nat \<Rightarrow> cm_t \<Rightarrow> env \<Rightarrow> atom_t \<Rightarrow> bts_t \<Rightarrow> nat \<Rightarrow> int \<Rightarrow> heap \<Rightarrow> error + (bts_t \<times> heap)" where
  "lazy_match n cm e atom stack gr head h =
     (case stack of
        [] \<Rightarrow> Inl AssertFail
      | tp # rest \<Rightarrow>
          lazy_loop n cm e atom gr head (s_nest tp) (s_str tp) (s_matches tp)
            (s_recursive tp) (s_inner tp) (s_nbr tp) rest h)"

subsection \<open>Main matching logic\<close>

text \<open>\<open>NoRangeCase\<close>, after the operation: the top is popped, and on success
  the state for the next atom is pushed.\<close>

definition NoRangeCase :: "atom_t \<Rightarrow> bts_t \<Rightarrow> int option \<Rightarrow> bts_t" where
  "NoRangeCase atom stack r =
     (case r of
        None \<Rightarrow> tl stack
      | Some str \<Rightarrow> bts_push (tl stack) (a_index atom + 1) str 0 False None 0)"

definition atom_match ::
  "nat \<Rightarrow> cm_t \<Rightarrow> env \<Rightarrow> atom_t \<Rightarrow> bts_t \<Rightarrow> nat \<Rightarrow> int \<Rightarrow> heap \<Rightarrow> error + (bts_t \<times> heap)" where
  "atom_match n cm e atom stack gr head h =
     (case stack of
        [] \<Rightarrow> Inl AssertFail
      | tp # rest \<Rightarrow>
          let str = s_str tp in
          case a_info atom of
            Uninitialized \<Rightarrow> Inl AssertFail
          | String s \<Rightarrow>
              bnd (match_string (input e) s str) (\<lambda>r. Inr (NoRangeCase atom stack r, h))
          | LookAhead c \<Rightarrow>
              bnd (match_lookahead cm e atom str gr head h) (\<lambda>(r, h).
                Inr (NoRangeCase atom stack r, h))
          | WordAnchor \<Rightarrow>
              bnd (match_wordanchor e atom str head) (\<lambda>r. Inr (NoRangeCase atom stack r, h))
          | EdgeAnchor \<Rightarrow>
              bnd (match_edgeanchor e atom str head) (\<lambda>r. Inr (NoRangeCase atom stack r, h))
          | _ \<Rightarrow>
              if a_greedy atom then greedy_match n cm e atom stack gr head h
              else lazy_match n cm e atom stack gr head h)"

text \<open>\<open>branch_match\<close>; the first argument bounds the number of iterations.\<close>

fun branch_match ::
  "nat \<Rightarrow> nat \<Rightarrow> cm_t \<Rightarrow> env \<Rightarrow> atom_t list \<Rightarrow> bts_t \<Rightarrow> nat \<Rightarrow> int \<Rightarrow> heap
     \<Rightarrow> error + (int option \<times> bts_t \<times> heap)" where
  "branch_match 0 n cm e obj stack gr head h = Inl OutOfFuel"
| "branch_match (Suc k) n cm e obj stack gr head h =
     (case stack of
        [] \<Rightarrow> Inr (None, stack, h)
      | tp # rest \<Rightarrow>
          if s_index tp = length obj then Inr (Some (s_str tp), rest, h)
          else if \<not> s_index tp < length obj then Inl OutOfBounds
          else bnd (atom_match n cm e (obj ! s_index tp) stack gr head h) (\<lambda>(stack, h).
                 branch_match k n cm e obj stack gr head h))"

text \<open>The loop of \<open>core_match\<close> over the branches from number \<open>nbr\<close> on.  The
  result is \<open>end\<close>, the number of the branch that matched, the stack and the
  heap.\<close>

fun branch_loop ::
  "nat \<Rightarrow> nat \<Rightarrow> cm_t \<Rightarrow> env \<Rightarrow> core_t \<Rightarrow> nat \<Rightarrow> int \<Rightarrow> nat \<Rightarrow> int \<Rightarrow> bts_t \<Rightarrow> heap
     \<Rightarrow> error + (int option \<times> nat \<times> bts_t \<times> heap)" where
  "branch_loop 0 n cm e obj nbr str groups head stack h = Inl OutOfFuel"
| "branch_loop (Suc k) n cm e obj nbr str groups head stack h =
     (if \<not> nbr < length (c_start obj) then Inl NullDeref
      else
        bnd (branch_match n n cm e (c_start obj ! nbr) stack groups head h) (\<lambda>(r, stack, h).
          case r of
            Some en \<Rightarrow> Inr (Some en, nbr, stack, h)
          | None \<Rightarrow>
              if Suc nbr < length (c_start obj)
              then branch_loop k n cm e obj (Suc nbr) str groups head
                     (bts_push stack 0 str 0 False None 0) h
              else bnd (bts_free stack h) (\<lambda>h. Inr (None, nbr, [], h))))"

text \<open>\<open>core_match\<close> from the label \<open>FoundMatch\<close> on.\<close>

definition FoundMatch ::
  "core_t \<Rightarrow> int \<Rightarrow> bts_t option \<Rightarrow> nat \<Rightarrow> nat option \<Rightarrow> int \<Rightarrow> nat \<Rightarrow> bts_t \<Rightarrow> heap \<Rightarrow> cm_result" where
  "FoundMatch obj str outer g captcha en nbr stack h =
     bnd (if c_index obj \<ge> 0
          then slot_write h g captcha \<lparr>gbegin = Some str, gend = Some en\<rparr>
          else Inr h) (\<lambda>h.
     bnd (case outer of
            Some out \<Rightarrow>
              if stack \<noteq> []
              then Inr (Some (bts_push out 0 str 0 True (Some stack) nbr), h)
              else if Suc nbr < length (c_start obj)
              then Inr (Some (bts_push out 0 str 0 True
                                (Some (bts_push stack 0 str 0 False None 0)) (Suc nbr)), h)
              else bnd (bts_free stack h) (\<lambda>h.
                     Inr (Some (bts_push out 0 str 0 True None 0), h))
          | None \<Rightarrow> bnd (bts_free stack h) (\<lambda>h. Inr (None, h))) (\<lambda>(outer, h).
     Inr (Some (g, en), outer, h)))"

definition core_match_body :: "nat \<Rightarrow> cm_t \<Rightarrow> env \<Rightarrow> cm_t" where
  "core_match_body n cm e obj str outer groups stack nbr head h =
     (let top_level = (c_index obj = 0 \<and> groups = None) in
      bnd (if top_level
           then bnd (range_new (core_groups obj) h) (\<lambda>(g, h). Inr (Some g, h))
           else Inr (groups, h)) (\<lambda>(groups, h).
        case groups of
          None \<Rightarrow> Inl AssertFail
        | Some g \<Rightarrow>
            bnd (range_group h g (c_index obj)) (\<lambda>captcha.
            bnd (if c_index obj \<ge> 0
                 then slot_write h g captcha \<lparr>gbegin = None, gend = None\<rparr>
                 else Inr h) (\<lambda>h.
              if \<not> nbr < length (c_start obj)
              then Inl (if nbr = 0 \<or> c_start obj = [] then NullDeref else AssertFail)
              else
                let stack = (case stack of
                               None \<Rightarrow> bts_push [] 0 str 0 False None 0
                             | Some s \<Rightarrow> s)
                in if stack = [] then Inl AssertFail
                   else
                     bnd (branch_loop n n cm e obj nbr str g head stack h) (\<lambda>(r, nbr, stack, h).
                       case r of
                         None \<Rightarrow>
                           bnd (if top_level then range_free (Some g) h else Inr h) (\<lambda>h.
                             Inr (None, outer, h))
                       | Some en \<Rightarrow> FoundMatch obj str outer g captcha en nbr stack h)))))"

text \<open>\<open>core_match\<close> with a bound on the depth of the calls of nested cores and
  on the iterations of each loop.\<close>

fun core_match :: "nat \<Rightarrow> env \<Rightarrow> cm_t" where
  "core_match 0 e obj str outer groups stack nbr head h = Inl OutOfFuel"
| "core_match (Suc n) e obj str outer groups stack nbr head h =
     core_match_body n (core_match n e) e obj str outer groups stack nbr head h"


section \<open>shre.c: the interface\<close>

text \<open>
  The arrays and stacks that a top-level call of \<open>core_match\<close> allocates are
  its own: the call starts on an empty heap, and the array it returns is handed
  over as a value, with \<open>*back\<close>.
\<close>

definition core_match_top :: "nat \<Rightarrow> env \<Rightarrow> int \<Rightarrow> int \<Rightarrow> error + (range_t \<times> int) option" where
  "core_match_top n e str head =
     bnd (core_match n e (pattern_core e) str None None None 0 head []) (\<lambda>(r, outer, h).
       case r of
         None \<Rightarrow> Inr None
       | Some (g, en) \<Rightarrow> bnd (deref h g) (\<lambda>arr. Inr (Some (arr, en))))"

record match_t =
  m_groups :: range_t
  m_offset :: u32

text \<open>\<open>match_new(groups, names, range_group(groups, 0)->begin - start)\<close>\<close>

definition match_new :: "range_t \<Rightarrow> int \<Rightarrow> error + match_t" where
  "match_new arr start =
     (case arr of
        [] \<Rightarrow> Inl NullDeref
      | g # gs \<Rightarrow>
          (case gbegin g of
             None \<Rightarrow> Inl Undefined
           | Some b \<Rightarrow> Inr \<lparr>m_groups = arr, m_offset = word_of_int (b - start)\<rparr>))"

text \<open>The loop of \<open>shre_search\<close>, from the position \<open>str\<close> on.\<close>

function search_from :: "nat \<Rightarrow> env \<Rightarrow> int \<Rightarrow> int \<Rightarrow> error + match_t option" where
  "search_from n e str start =
     (case core_match_top n e str start of
        Inl err \<Rightarrow> Inl err
      | Inr (Some (arr, en)) \<Rightarrow> bnd (match_new arr start) (\<lambda>m. Inr (Some m))
      | Inr None \<Rightarrow>
          (case rd (input e) str of
             None \<Rightarrow> Inl OutOfBounds
           | Some c \<Rightarrow> if c = 0 then Inr None else search_from n e (str + 1) start))"
  by pat_completeness auto
termination
  by (relation "measure (\<lambda>(n, e, str, start). nat (int (length (input e)) - str))")
     (auto simp: rd_def split: if_splits)

declare search_from.simps [simp del]

text \<open>A pattern is its root core; \<open>str\<close> is the input with its terminating
  zero byte.\<close>

definition shre_search :: "nat \<Rightarrow> class_t \<Rightarrow> core_t \<Rightarrow> byte list \<Rightarrow> error + match_t option" where
  "shre_search n wc pattern str =
     search_from n \<lparr>input = str, pattern_core = pattern, word_characters = wc\<rparr> 0 0"





section \<open>Example patterns\<close>

text \<open>The graphs that \<open>build_core\<close> makes for some patterns, and the class of
  \<open>[\w]\<close>.\<close>

definition once :: urange32 where
  "once = \<lparr>lo = 1, hi = 1\<rparr>"

definition word_class :: class_t where
  "word_class =
     Node \<lparr>lo = 0x61, hi = 0x7A\<rparr>
       (Node \<lparr>lo = 0x30, hi = 0x39\<rparr> Null
          (Node \<lparr>lo = 0x41, hi = 0x5A\<rparr> Null (Node \<lparr>lo = 0x5F, hi = 0x5F\<rparr> Null Null)))
       Null"


text \<open>\<open>a(?=(b))\<close>\<close>

definition pat_lookahead :: core_t where
  "pat_lookahead =
     Core [[Atom 0 (String [0x61]) False True once,
            Atom 1 (LookAhead (Core [[Atom 0 (Group (Core [[Atom 0 (String [0x62]) False True once]] 1))
                                        False True once]] (- 1)))
              False True once]] 0"

text \<open>\<open>(ab)c|a\<close>\<close>

definition pat_alt :: core_t where
  "pat_alt =
     Core [[Atom 0 (Group (Core [[Atom 0 (String [0x61, 0x62]) False True once]] 1))
              False True once,
            Atom 1 (String [0x63]) False True once],
           [Atom 0 (String [0x61]) False True once]] 0"

text \<open>\<open>\b\<close>\<close>

definition pat_wordanchor :: core_t where
  "pat_wordanchor = Core [[Atom 0 WordAnchor False True once]] 0"

text \<open>\<open>(a|ab)(?1)c\<close>\<close>

definition pat_subroutine :: core_t where
  "pat_subroutine =
     Core [[Atom 0 (Group (Core [[Atom 0 (String [0x61]) False True once],
                                 [Atom 0 (String [0x61, 0x62]) False True once]] 1))
              False True once,
            Atom 1 (Subroutine 1) False True once,
            Atom 2 (String [0x63]) False True once]] 0"

text \<open>\<open>(a|ab)(?1){2}c\<close>\<close>

definition pat_subroutine_twice :: core_t where
  "pat_subroutine_twice =
     Core [[Atom 0 (Group (Core [[Atom 0 (String [0x61]) False True once],
                                 [Atom 0 (String [0x61, 0x62]) False True once]] 1))
              False True once,
            Atom 1 (Subroutine 1) False True \<lparr>lo = 2, hi = 2\<rparr>,
            Atom 2 (String [0x63]) False True once]] 0"

text \<open>\<open>(?:(a)b|a)\<close> followed by a backreference to group 1; a non-capturing
  group has the group number \<open>-1\<close>.\<close>

definition pat_backref :: core_t where
  "pat_backref =
     Core [[Atom 0 (Group (Core [[Atom 0 (Group (Core [[Atom 0 (String [0x61]) False True once]] 1))
                                    False True once,
                                  Atom 1 (String [0x62]) False True once],
                                 [Atom 0 (String [0x61]) False True once]] (- 1)))
              False True once,
            Atom 1 (Backreference 1) False True once]] 0"

section \<open>Properties\<close>

subsection \<open>Auxiliary facts\<close>

lemma bnd_Inr_iff: "bnd m f = Inr y \<longleftrightarrow> (\<exists>x. m = Inr x \<and> f x = Inr y)"
  by (cases m) (auto simp: bnd_def)

definition shrunk :: "heap \<Rightarrow> heap \<Rightarrow> bool" where
  "shrunk h h' \<longleftrightarrow> length h' = length h \<and> (\<forall>a < length h. h' ! a = h ! a \<or> h' ! a = None)"

lemma shrunk_refl: "shrunk h h" by (simp add: shrunk_def)

lemma shrunk_trans: "shrunk h h1 \<Longrightarrow> shrunk h1 h2 \<Longrightarrow> shrunk h h2"
  unfolding shrunk_def by metis

lemma range_free_shrunk: "range_free ra h = Inr h' \<Longrightarrow> shrunk h h'"
proof (cases ra)
  case None
  then show "range_free ra h = Inr h' \<Longrightarrow> shrunk h h'"
    by (simp add: range_free_def shrunk_refl)
next
  case (Some a)
  assume "range_free ra h = Inr h'"
  with Some have "h' = h[a := None]" "a < length h"
    by (auto simp: range_free_def bnd_Inr_iff deref_def split: if_splits)
  then show "shrunk h h'"
    by (simp add: shrunk_def nth_list_update)
qed

lemma bts_free_shrunk: "bts_free st h = Inr h' \<Longrightarrow> shrunk h h'"
proof (induction st h arbitrary: h' rule: bts_free.induct)
  case (1 h)
  then show ?case by (simp add: shrunk_refl)
next
  case (2 i m s inn nest nbr rc rest h)
  show ?case
  proof (cases rc)
    case False
    with 2 show ?thesis by simp
  next
    case True
    with "2.prems" obtain h1 h2 where
      h1: "(case inn of None \<Rightarrow> Inr h | Some st \<Rightarrow> bts_free st h) = Inr h1"
      and h2: "range_free nest h1 = Inr h2"
      and h3: "bts_free rest h2 = Inr h'"
      by (auto simp: bnd_Inr_iff)
    have a1: "shrunk h h1"
    proof (cases inn)
      case None
      with h1 show ?thesis by (simp add: shrunk_refl)
    next
      case (Some st)
      with h1 "2.IH"(1)[OF True Some] show ?thesis by simp
    qed
    note a2 = range_free_shrunk[OF h2]
    have a3: "shrunk h2 h'" using "2.IH"(2) True h1 h2 h3 by blast
    from a1 a2 a3 show ?thesis by (blast intro: shrunk_trans)
  qed
qed

lemma deref_shrunk: "shrunk h h' \<Longrightarrow> deref h' g = Inr arr \<Longrightarrow> deref h g = Inr arr"
  by (auto simp: deref_def shrunk_def split: if_splits option.splits)

lemma core_match_bodyE:
  assumes "core_match_body n cm e obj str outer groups stack nbr head h = Inr res"
  obtains g h1 captcha h2 r nbr' st h3 where
    "(if c_index obj = 0 \<and> groups = None
      then bnd (range_new (core_groups obj) h) (\<lambda>(g, h). Inr (Some g, h))
      else Inr (groups, h)) = Inr (Some g, h1)"
    "range_group h1 g (c_index obj) = Inr captcha"
    "(if c_index obj \<ge> 0 then slot_write h1 g captcha \<lparr>gbegin = None, gend = None\<rparr>
      else Inr h1) = Inr h2"
    "nbr < length (c_start obj)"
    "(case stack of None \<Rightarrow> bts_push [] 0 str 0 False None 0 | Some s \<Rightarrow> s) \<noteq> []"
    "branch_loop n n cm e obj nbr str g head
       (case stack of None \<Rightarrow> bts_push [] 0 str 0 False None 0 | Some s \<Rightarrow> s) h2
     = Inr (r, nbr', st, h3)"
    "case r of
       None \<Rightarrow> \<exists>h4. (if c_index obj = 0 \<and> groups = None then range_free (Some g) h3
                       else Inr h3) = Inr h4 \<and> res = (None, outer, h4)
     | Some en \<Rightarrow> FoundMatch obj str outer g captcha en nbr' st h3 = Inr res"
proof -
  let ?tl = "c_index obj = 0 \<and> groups = None"
  let ?st = "(case stack of None \<Rightarrow> bts_push [] 0 str 0 False None 0 | Some s \<Rightarrow> s)"
  from assms obtain gs h1 where
    1: "(if ?tl then bnd (range_new (core_groups obj) h) (\<lambda>(g, h). Inr (Some g, h))
         else Inr (groups, h)) = Inr (gs, h1)"
    and r1: "(case gs of None \<Rightarrow> Inl AssertFail
        | Some g \<Rightarrow>
            bnd (range_group h1 g (c_index obj)) (\<lambda>captcha.
            bnd (if c_index obj \<ge> 0
                 then slot_write h1 g captcha \<lparr>gbegin = None, gend = None\<rparr>
                 else Inr h1) (\<lambda>h.
              if \<not> nbr < length (c_start obj)
              then Inl (if nbr = 0 \<or> c_start obj = [] then NullDeref else AssertFail)
              else
                let stack = ?st
                in if stack = [] then Inl AssertFail
                   else
                     bnd (branch_loop n n cm e obj nbr str g head stack h) (\<lambda>(r, nbr, stack, h).
                       case r of
                         None \<Rightarrow>
                           bnd (if ?tl then range_free (Some g) h else Inr h) (\<lambda>h.
                             Inr (None, outer, h))
                       | Some en \<Rightarrow> FoundMatch obj str outer g captcha en nbr stack h)))) = Inr res"
    unfolding core_match_body_def Let_def bnd_Inr_iff by (auto simp del: split_paired_Ex)
  from r1 obtain g where g: "gs = Some g" by (cases gs) auto
  from r1 g obtain captcha h2 where
    2: "range_group h1 g (c_index obj) = Inr captcha"
    and 3: "(if c_index obj \<ge> 0 then slot_write h1 g captcha \<lparr>gbegin = None, gend = None\<rparr>
      else Inr h1) = Inr h2"
    and r2: "(if \<not> nbr < length (c_start obj)
              then Inl (if nbr = 0 \<or> c_start obj = [] then NullDeref else AssertFail)
              else
                let stack = ?st
                in if stack = [] then Inl AssertFail
                   else
                     bnd (branch_loop n n cm e obj nbr str g head stack h2) (\<lambda>(r, nbr, stack, h).
                       case r of
                         None \<Rightarrow>
                           bnd (if ?tl then range_free (Some g) h else Inr h) (\<lambda>h.
                             Inr (None, outer, h))
                       | Some en \<Rightarrow> FoundMatch obj str outer g captcha en nbr stack h)) = Inr res"
    by (auto simp: bnd_Inr_iff)
  from r2 have 4: "nbr < length (c_start obj)" and 5: "?st \<noteq> []"
    by (auto simp: Let_def split: if_splits)
  from r2 4 5 obtain r nbr' st h3 where
    6: "branch_loop n n cm e obj nbr str g head ?st h2 = Inr (r, nbr', st, h3)"
    and r3: "(case r of
                None \<Rightarrow> bnd (if ?tl then range_free (Some g) h3 else Inr h3) (\<lambda>h.
                             Inr (None, outer, h))
              | Some en \<Rightarrow> FoundMatch obj str outer g captcha en nbr' st h3) = Inr res"
    by (auto simp: Let_def bnd_Inr_iff)
  from r3 have 7: "case r of
       None \<Rightarrow> \<exists>h4. (if ?tl then range_free (Some g) h3 else Inr h3) = Inr h4
                  \<and> res = (None, outer, h4)
     | Some en \<Rightarrow> FoundMatch obj str outer g captcha en nbr' st h3 = Inr res"
    by (cases r) (auto simp: bnd_Inr_iff)
  from that[OF 1[unfolded g] 2 3 4 5 6 7] show thesis .
qed

lemma FoundMatchE:
  assumes "FoundMatch obj str outer g captcha en nbr st h = Inr res"
  obtains h1 outer' h2 where
    "(if c_index obj \<ge> 0 then slot_write h g captcha \<lparr>gbegin = Some str, gend = Some en\<rparr>
      else Inr h) = Inr h1"
    "(case outer of
        Some out \<Rightarrow>
          if st \<noteq> []
          then Inr (Some (bts_push out 0 str 0 True (Some st) nbr), h1)
          else if Suc nbr < length (c_start obj)
          then Inr (Some (bts_push out 0 str 0 True
                            (Some (bts_push st 0 str 0 False None 0)) (Suc nbr)), h1)
          else bnd (bts_free st h1) (\<lambda>h.
                 Inr (Some (bts_push out 0 str 0 True None 0), h))
      | None \<Rightarrow> bnd (bts_free st h1) (\<lambda>h. Inr (None, h))) = Inr (outer', h2)"
    "res = (Some (g, en), outer', h2)"
  using assms unfolding FoundMatch_def bnd_Inr_iff by (auto simp del: split_paired_Ex)

lemma core_match_root_slot0:
  assumes cm: "core_match n e obj str None None stack nbr head h = Inr (Some (g, en), outer, h')"
    and idx: "c_index obj = 0" and d: "deref h' g = Inr arr"
  shows "arr \<noteq> [] \<and> arr ! 0 = \<lparr>gbegin = Some str, gend = Some en\<rparr>"
proof (cases n)
  case 0
  with cm show ?thesis by simp
next
  case (Suc k)
  from cm Suc have b: "core_match_body k (core_match k e) e obj str None None stack nbr head h
     = Inr (Some (g, en), outer, h')" by simp
  from b show ?thesis
  proof (rule core_match_bodyE)
    fix g0 h1 captcha h2 r nbr' st h3
    assume rg: "range_group h1 g0 (c_index obj) = Inr captcha"
      and fin: "case r of
         None \<Rightarrow> \<exists>h4. (if c_index obj = 0 \<and> (None :: nat option) = None
                         then range_free (Some g0) h3 else Inr h3) = Inr h4
                    \<and> (Some (g, en), outer, h') = (None, None, h4)
       | Some en' \<Rightarrow> FoundMatch obj str None g0 captcha en' nbr' st h3
                      = Inr (Some (g, en), outer, h')"
    from fin obtain en' where
      f: "FoundMatch obj str None g0 captcha en' nbr' st h3 = Inr (Some (g, en), outer, h')"
      by (cases r) auto
    from f show ?thesis
    proof (rule FoundMatchE)
      fix h4 outer' h5
      assume w: "(if c_index obj \<ge> 0
                  then slot_write h3 g0 captcha \<lparr>gbegin = Some str, gend = Some en'\<rparr>
                  else Inr h3) = Inr h4"
        and fr: "(case (None :: bts_t option) of
            Some out \<Rightarrow>
              if st \<noteq> []
              then Inr (Some (bts_push out 0 str 0 True (Some st) nbr'), h4)
              else if Suc nbr' < length (c_start obj)
              then Inr (Some (bts_push out 0 str 0 True
                            (Some (bts_push st 0 str 0 False None 0)) (Suc nbr')), h4)
              else bnd (bts_free st h4) (\<lambda>h.
                     Inr (Some (bts_push out 0 str 0 True None 0), h))
          | None \<Rightarrow> bnd (bts_free st h4) (\<lambda>h. Inr (None, h))) = Inr (outer', h5)"
        and res: "(Some (g, en), outer, h') = (Some (g0, en'), outer', h5)"
      from res have eqs: "g = g0" "en = en'" "h' = h5" by auto
      from fr have "bts_free st h4 = Inr h5" by (auto simp: bnd_Inr_iff)
      then have "shrunk h4 h5" by (rule bts_free_shrunk)
      with d eqs have d4: "deref h4 g0 = Inr arr" by (auto dest: deref_shrunk)
      from rg idx have c0: "captcha = None \<or> captcha = Some 0"
        by (auto simp: range_group_def bnd_Inr_iff split: if_splits)
      from w idx c0 obtain arr3 where
        "deref h3 g0 = Inr arr3" "0 < length arr3"
        "h4 = h3[g0 := Some (arr3[0 := \<lparr>gbegin = Some str, gend = Some en'\<rparr>])]"
        by (auto simp: slot_write_def bnd_Inr_iff split: if_splits)
      with d4 have "arr = arr3[0 := \<lparr>gbegin = Some str, gend = Some en'\<rparr>]"
        by (auto simp: deref_def split: if_splits)
      with \<open>0 < length arr3\<close> eqs show ?thesis by auto
    qed
  qed
qed

lemma core_match_top_slot0:
  assumes "core_match_top n e str head = Inr (Some (arr, en))"
    and "c_index (pattern_core e) = 0"
  shows "arr \<noteq> [] \<and> arr ! 0 = \<lparr>gbegin = Some str, gend = Some en\<rparr>"
proof -
  from assms(1) obtain g outer h' where
    "core_match n e (pattern_core e) str None None None 0 head [] = Inr (Some (g, en), outer, h')"
    "deref h' g = Inr arr"
    unfolding core_match_top_def
    by (auto simp: bnd_Inr_iff split: option.splits)
  then show ?thesis using core_match_root_slot0 assms(2) by blast
qed


lemma search_from_Some:
  assumes "search_from n e p start = Inr (Some m)" and "c_index (pattern_core e) = 0"
  shows "\<exists>k en. p \<le> k \<and> core_match_top n e k start = Inr (Some (m_groups m, en))
           \<and> m_offset m = word_of_int (k - start)
           \<and> (\<forall>j. p \<le> j \<and> j < k \<longrightarrow> core_match_top n e j start = Inr None
                  \<and> (\<exists>c. rd (input e) j = Some c \<and> c \<noteq> 0))"
  using assms
proof (induction n e p start rule: search_from.induct)
  case (1 n e str start)
  show ?case
  proof (cases "core_match_top n e str start")
    case (Inl err)
    with "1.prems"(1) show ?thesis by (subst (asm) search_from.simps) simp
  next
    case (Inr r)
    show ?thesis
    proof (cases r)
      case (Some ae)
      obtain arr en where ae: "ae = (arr, en)" by (cases ae)
      from "1.prems"(1) Inr Some ae have "bnd (match_new arr start) (\<lambda>m. Inr (Some m)) = Inr (Some m)"
        by (subst (asm) search_from.simps) simp
      then have mn: "match_new arr start = Inr m" by (auto simp: bnd_Inr_iff)
      from core_match_top_slot0[OF _ "1.prems"(2)] Inr Some ae
      have s0: "arr \<noteq> []" "arr ! 0 = \<lparr>gbegin = Some str, gend = Some en\<rparr>" by auto
      from mn s0 have "m = \<lparr>m_groups = arr, m_offset = word_of_int (str - start)\<rparr>"
        by (cases arr) (auto simp: match_new_def)
      with Inr Some ae show ?thesis by (intro exI[of _ str] exI[of _ en]) auto
    next
      case None
      from "1.prems"(1) Inr None obtain c where c: "rd (input e) str = Some c" "c \<noteq> 0"
        and rest: "search_from n e (str + 1) start = Inr (Some m)"
        by (subst (asm) search_from.simps) (auto split: option.splits if_splits)
      from "1.IH"[OF _ _ c rest "1.prems"(2)] Inr None
      obtain k en where k: "str + 1 \<le> k" "core_match_top n e k start = Inr (Some (m_groups m, en))"
          "m_offset m = word_of_int (k - start)"
          "\<forall>j. str + 1 \<le> j \<and> j < k \<longrightarrow> core_match_top n e j start = Inr None
                  \<and> (\<exists>c. rd (input e) j = Some c \<and> c \<noteq> 0)"
        by auto
      have "\<forall>j. str \<le> j \<and> j < k \<longrightarrow> core_match_top n e j start = Inr None
                  \<and> (\<exists>c. rd (input e) j = Some c \<and> c \<noteq> 0)"
      proof (intro allI impI)
        fix j assume j: "str \<le> j \<and> j < k"
        show "core_match_top n e j start = Inr None \<and> (\<exists>c. rd (input e) j = Some c \<and> c \<noteq> 0)"
        proof (cases "j = str")
          case True
          with Inr None c show ?thesis by auto
        next
          case False
          with j k(4) show ?thesis by auto
        qed
      qed
      with k show ?thesis by (intro exI[of _ k] exI[of _ en]) auto
    qed
  qed
qed




subsection \<open>The steps of a run that returns\<close>

lemma match_lookahead_Inr:
  assumes "match_lookahead cm e atom str gr head h = Inr (r, h')"
  shows "\<exists>c r1 o1. atom_core e atom = Inr c
           \<and> cm c str None (Some gr) None 0 head h = Inr (r1, o1, h')
           \<and> r = (if r1 = None then FALSe atom str else TRUe atom str)"
  using assms unfolding match_lookahead_def
  by (auto simp: bnd_Inr_iff split: option.splits)

lemma not_Some_pair: "(\<forall>a b. x \<noteq> Some (a, b)) \<longleftrightarrow> x = None"
  by (cases x) auto

lemma match_atomic_Inr:
  assumes "match_atomic cm e atom str gr head h = Inr (r, h')"
  shows "\<exists>c r1 o1. atom_core e atom = Inr c
           \<and> cm c str None (Some gr) None 0 head h = Inr (r1, o1, h')
           \<and> r = map_option snd r1"
  using assms unfolding match_atomic_def
  by (auto simp: bnd_Inr_iff not_Some_pair split: option.splits)

text \<open>What \<open>match_group\<close> (with \<open>nest = None\<close>) and \<open>match_subroutine\<close> do with the
  stack after a match of the nested core.\<close>

definition after_match :: "atom_t \<Rightarrow> u32 \<Rightarrow> nat option \<Rightarrow> bts_t \<Rightarrow> bts_t \<Rightarrow> bool" where
  "after_match atom matches nest st1 stack' \<longleftrightarrow>
     (\<exists>tp rest. st1 = tp # rest
        \<and> (if s_inner tp = None then stack' = rest
            else bts_set_top st1 (a_index atom) matches nest = Inr stack'))"

definition group_after ::
  "atom_t \<Rightarrow> u32 \<Rightarrow> (nat \<times> int) option \<times> bts_t option \<times> heap
     \<Rightarrow> error + (int option \<times> bts_t \<times> heap)" where
  "group_after atom matches =
     (\<lambda>(r, outer, h).
       case outer of
         None \<Rightarrow> Inl NullDeref
       | Some stack \<Rightarrow>
           (case r of
              None \<Rightarrow> Inr (None, stack, h)
            | Some (g, en) \<Rightarrow>
                (case stack of
                   [] \<Rightarrow> Inl AssertFail
                 | tp # rest \<Rightarrow>
                     if s_inner tp = None then Inr (Some en, rest, h)
                     else bnd (bts_set_top stack (a_index atom) matches None)
                            (\<lambda>stack. Inr (Some en, stack, h)))))"

lemma match_group_eq:
  "match_group cm e atom matches str gr stack inner nbr head h =
     bnd (atom_core e atom) (\<lambda>c.
     bnd (cm c str (Some stack) (Some gr) inner nbr head h) (group_after atom matches))"
  unfolding match_group_def group_after_def ..

lemma group_after_Inr:
  assumes "group_after atom matches (r1, o1, h1) = Inr (r, stack', h')"
  shows "\<exists>st1. o1 = Some st1 \<and> h' = h1 \<and> r = map_option snd r1
           \<and> (if r1 = None then stack' = st1 else after_match atom matches None st1 stack')"
proof (cases o1)
  case None
  with assms show ?thesis by (simp add: group_after_def)
next
  case (Some st1)
  show ?thesis
  proof (cases r1)
    case None
    with assms Some show ?thesis by (simp add: group_after_def)
  next
    case r1: (Some ge)
    obtain g en where ge: "ge = (g, en)" by (cases ge)
    show ?thesis
    proof (cases st1)
      case Nil
      with assms Some r1 ge show ?thesis by (simp add: group_after_def)
    next
      case (Cons tp rest)
      with assms Some r1 ge show ?thesis
        by (auto simp: group_after_def after_match_def bnd_Inr_iff split: if_splits)
    qed
  qed
qed

lemma match_group_Inr:
  assumes "match_group cm e atom matches str gr stack inner nbr head h = Inr (r, stack', h')"
  shows "\<exists>c r1 st1. atom_core e atom = Inr c
           \<and> cm c str (Some stack) (Some gr) inner nbr head h = Inr (r1, Some st1, h')
           \<and> r = map_option snd r1
           \<and> (if r1 = None then stack' = st1 else after_match atom matches None st1 stack')"
proof -
  from assms[unfolded match_group_eq] obtain c x where
    c: "atom_core e atom = Inr c"
    and cx: "cm c str (Some stack) (Some gr) inner nbr head h = Inr x"
    and ax: "group_after atom matches x = Inr (r, stack', h')"
    by (auto simp: bnd_Inr_iff)
  obtain r1 o1 h1 where x: "x = (r1, o1, h1)" by (cases x)
  from group_after_Inr[OF ax[unfolded x]] c cx x show ?thesis by auto
qed

definition subroutine_after ::
  "atom_t \<Rightarrow> u32 \<Rightarrow> nat \<Rightarrow> (nat \<times> int) option \<times> bts_t option \<times> heap
     \<Rightarrow> error + (int option \<times> bts_t \<times> heap)" where
  "subroutine_after atom matches temp =
     (\<lambda>(r, outer, h).
       case outer of
         None \<Rightarrow> Inl NullDeref
       | Some stack \<Rightarrow>
           (case r of
              None \<Rightarrow> bnd (range_free (Some temp) h) (\<lambda>h. Inr (None, stack, h))
            | Some (nest, en) \<Rightarrow>
                (case stack of
                   [] \<Rightarrow> Inl AssertFail
                 | tp # rest \<Rightarrow>
                     if s_inner tp = None
                     then bnd (range_free (Some nest) h) (\<lambda>h. Inr (Some en, rest, h))
                     else bnd (bts_set_top stack (a_index atom) matches (Some nest))
                            (\<lambda>stack. Inr (Some en, stack, h)))))"

lemma match_subroutine_eq:
  "match_subroutine cm e atom matches str gr stack inner nbr head nest h =
     bnd (case nest of None \<Rightarrow> range_copy gr h | Some n \<Rightarrow> Inr (n, h)) (\<lambda>(temp, h).
     bnd (atom_core e atom) (\<lambda>c.
     bnd (cm c str (Some stack) (Some temp) inner nbr head h)
       (subroutine_after atom matches temp)))"
  unfolding match_subroutine_def subroutine_after_def ..

lemma subroutine_after_Inr:
  assumes "subroutine_after atom matches temp (r1, o1, h2) = Inr (r, stack', h')"
  shows "\<exists>st1. o1 = Some st1 \<and> r = map_option snd r1
           \<and> (case r1 of
                None \<Rightarrow> stack' = st1 \<and> range_free (Some temp) h2 = Inr h'
              | Some (g, en) \<Rightarrow>
                  after_match atom matches (Some g) st1 stack'
                  \<and> (if s_inner (hd st1) = None then range_free (Some g) h2 = Inr h'
                      else h' = h2))"
proof (cases o1)
  case None
  with assms show ?thesis by (simp add: subroutine_after_def)
next
  case (Some st1)
  show ?thesis
  proof (cases r1)
    case None
    with assms Some show ?thesis by (auto simp: subroutine_after_def bnd_Inr_iff)
  next
    case r1: (Some ge)
    obtain g en where ge: "ge = (g, en)" by (cases ge)
    show ?thesis
    proof (cases st1)
      case Nil
      with assms Some r1 ge show ?thesis by (simp add: subroutine_after_def)
    next
      case (Cons tp rest)
      with assms Some r1 ge show ?thesis
        by (auto simp: subroutine_after_def after_match_def bnd_Inr_iff split: if_splits)
    qed
  qed
qed

lemma match_subroutine_Inr:
  assumes "match_subroutine cm e atom matches str gr stack inner nbr head nest h
           = Inr (r, stack', h')"
  shows "\<exists>temp h1 c r1 st1 h2.
           (case nest of None \<Rightarrow> range_copy gr h | Some n \<Rightarrow> Inr (n, h)) = Inr (temp, h1)
           \<and> atom_core e atom = Inr c
           \<and> cm c str (Some stack) (Some temp) inner nbr head h1 = Inr (r1, Some st1, h2)
           \<and> r = map_option snd r1
           \<and> (case r1 of
                None \<Rightarrow> stack' = st1 \<and> range_free (Some temp) h2 = Inr h'
              | Some (g, en) \<Rightarrow>
                  after_match atom matches (Some g) st1 stack'
                  \<and> (if s_inner (hd st1) = None then range_free (Some g) h2 = Inr h'
                      else h' = h2))"
proof -
  from assms[unfolded match_subroutine_eq] obtain th where
    t0: "(case nest of None \<Rightarrow> range_copy gr h | Some n \<Rightarrow> Inr (n, h)) = Inr th"
    and s1: "(\<lambda>(temp, h).
     bnd (atom_core e atom) (\<lambda>c.
     bnd (cm c str (Some stack) (Some temp) inner nbr head h)
       (subroutine_after atom matches temp))) th = Inr (r, stack', h')"
    by (auto simp: bnd_Inr_iff simp del: split_paired_Ex)
  obtain temp h1 where th: "th = (temp, h1)" by (cases th)
  from s1[unfolded th] obtain c x where
    c: "atom_core e atom = Inr c"
    and cx: "cm c str (Some stack) (Some temp) inner nbr head h1 = Inr x"
    and ax: "subroutine_after atom matches temp x = Inr (r, stack', h')"
    by (auto simp: bnd_Inr_iff)
  obtain r1 o1 h2 where x: "x = (r1, o1, h2)" by (cases x)
  from subroutine_after_Inr[OF ax[unfolded x]] t0 th c cx x show ?thesis by auto
qed

lemma DoMatch_Inr:
  assumes "DoMatch cm e atom matches str gr stack inner nbr head nest h = Inr (r, stack', h')"
  shows "(\<exists>c. a_info atom = Class c \<and> match_class e atom str = Inr r
              \<and> stack' = stack \<and> h' = h)
       \<or> (\<exists>i. a_info atom = Backreference i \<and> match_reference e atom str gr h = Inr r
              \<and> stack' = stack \<and> h' = h)
       \<or> (\<exists>c. a_info atom = Group c
              \<and> match_group cm e atom matches str gr stack inner nbr head h = Inr (r, stack', h'))
       \<or> (\<exists>i. a_info atom = Subroutine i
              \<and> match_subroutine cm e atom matches str gr stack inner nbr head nest h
                  = Inr (r, stack', h'))
       \<or> (\<exists>c. a_info atom = Atomic c \<and> match_atomic cm e atom str gr head h = Inr (r, h')
              \<and> stack' = stack)"
  using assms unfolding DoMatch_def
  by (cases "a_info atom") (auto simp: bnd_Inr_iff)

text \<open>The state that \<open>greedy_loop\<close> pushes at the start of an iteration.\<close>

definition greedy_pushed :: "atom_t \<Rightarrow> u32 \<Rightarrow> int \<Rightarrow> bts_t \<Rightarrow> bts_t" where
  "greedy_pushed atom matches str stack =
     (if matches \<ge> lo (a_range atom) \<and> matches \<le> hi (a_range atom)
      then bts_push stack (a_index atom + 1) str 0 False None 0 else stack)"

lemma greedy_loop_Inr:
  assumes "greedy_loop k cm e atom gr head nest str matches recursive inner nbr stack h
           = Inr (stack', h')"
  shows "\<exists>k'. k = Suc k'
         \<and> ((stack' = greedy_pushed atom matches str stack \<and> h' = h)
            \<or> DoMatch cm e atom matches str gr (greedy_pushed atom matches str stack) inner nbr
                 head nest h = Inr (None, stack', h')
            \<or> (\<exists>x st1 h1.
                 DoMatch cm e atom matches str gr (greedy_pushed atom matches str stack) inner
                   nbr head nest h = Inr (Some x, st1, h1)
                 \<and> greedy_loop k' cm e atom gr head nest x (matches + 1) False
                     (if recursive then None else inner) (if recursive then 0 else nbr) st1 h1
                   = Inr (stack', h')))"
proof (cases k)
  case 0
  with assms show ?thesis by simp
next
  case (Suc k')
  with assms show ?thesis
    by (auto simp: Let_def greedy_pushed_def bnd_Inr_iff split: option.splits if_splits)
qed

definition lazy_pushed :: "atom_t \<Rightarrow> u32 \<Rightarrow> int option \<Rightarrow> bts_t \<Rightarrow> bts_t" where
  "lazy_pushed atom matches r stack =
     (case r of
        None \<Rightarrow> stack
      | Some str \<Rightarrow>
          if matches \<ge> lo (a_range atom) \<and> matches < hi (a_range atom)
          then bts_push stack (a_index atom) str (matches + 1) False None 0 else stack)"

lemma lazy_loop_Inr:
  assumes "lazy_loop k cm e atom gr head nest str matches recursive inner nbr stack h
           = Inr (stack', h')"
  shows "\<exists>k'. k = Suc k'
         \<and> ((stack' = stack \<and> h' = h)
            \<or> (\<exists>r1 st1 h1.
                 (if matches \<noteq> hi (a_range atom)
                  then DoMatch cm e atom matches str gr stack inner nbr head nest h
                  else Inr (Some str, stack, h)) = Inr (r1, st1, h1)
                 \<and> ((stack' = bts_push (lazy_pushed atom matches r1 st1) (a_index atom + 1) str 0
                                 False None 0 \<and> h' = h1)
                    \<or> (r1 = None \<and> stack' = lazy_pushed atom matches r1 st1 \<and> h' = h1)
                    \<or> (\<exists>x. r1 = Some x
                         \<and> lazy_loop k' cm e atom gr head nest x (matches + 1) False
                             (if recursive then None else inner) (if recursive then 0 else nbr)
                             (lazy_pushed atom matches r1 st1) h1 = Inr (stack', h')))))"
proof (cases k)
  case 0
  with assms show ?thesis by simp
next
  case (Suc k')
  from assms Suc obtain stp where
    s1: "(if stp then Inr (stack, h)
       else
         let temp = str in
         bnd (if matches \<noteq> hi (a_range atom)
              then DoMatch cm e atom matches str gr stack inner nbr head nest h
              else Inr (Some str, stack, h)) (\<lambda>(r, stack, h).
           let stack = (if r \<noteq> None \<and> matches \<ge> lo (a_range atom) \<and> matches < hi (a_range atom)
                        then (case r of
                                Some str \<Rightarrow> bts_push stack (a_index atom) str (matches + 1) False None 0
                              | None \<Rightarrow> stack)
                        else stack)
           in if matches \<ge> lo (a_range atom) \<and> matches \<le> hi (a_range atom)
              then Inr (bts_push stack (a_index atom + 1) temp 0 False None 0, h)
              else
                (case r of
                   None \<Rightarrow> Inr (stack, h)
                 | Some str \<Rightarrow>
                     if recursive
                     then lazy_loop k' cm e atom gr head nest str (matches + 1) False None 0 stack h
                     else lazy_loop k' cm e atom gr head nest str (matches + 1) recursive inner nbr
                            stack h))) = Inr (stack', h')"
    by (auto simp: bnd_Inr_iff simp del: split_paired_Ex)
  show ?thesis
  proof (cases stp)
    case True
    with s1 Suc show ?thesis by simp
  next
    case False
    with s1 obtain x where
      dx: "(if matches \<noteq> hi (a_range atom)
              then DoMatch cm e atom matches str gr stack inner nbr head nest h
              else Inr (Some str, stack, h)) = Inr x"
      and rx: "(\<lambda>(r, stack, h).
           let stack = (if r \<noteq> None \<and> matches \<ge> lo (a_range atom) \<and> matches < hi (a_range atom)
                        then (case r of
                                Some str \<Rightarrow> bts_push stack (a_index atom) str (matches + 1) False None 0
                              | None \<Rightarrow> stack)
                        else stack)
           in if matches \<ge> lo (a_range atom) \<and> matches \<le> hi (a_range atom)
              then Inr (bts_push stack (a_index atom + 1) str 0 False None 0, h)
              else
                (case r of
                   None \<Rightarrow> Inr (stack, h)
                 | Some str \<Rightarrow>
                     if recursive
                     then lazy_loop k' cm e atom gr head nest str (matches + 1) False None 0 stack h
                     else lazy_loop k' cm e atom gr head nest str (matches + 1) recursive inner nbr
                            stack h)) x = Inr (stack', h')"
      by (auto simp: Let_def bnd_Inr_iff simp del: split_paired_Ex)
    obtain r1 st1 h1 where x: "x = (r1, st1, h1)" by (cases x)
    have lp: "(if r1 \<noteq> None \<and> matches \<ge> lo (a_range atom) \<and> matches < hi (a_range atom)
                        then (case r1 of
                                Some str \<Rightarrow> bts_push st1 (a_index atom) str (matches + 1) False None 0
                              | None \<Rightarrow> st1)
                        else st1) = lazy_pushed atom matches r1 st1"
      by (cases r1) (auto simp: lazy_pushed_def)
    from rx[unfolded x] have rx': "(if matches \<ge> lo (a_range atom) \<and> matches \<le> hi (a_range atom)
              then Inr (bts_push (lazy_pushed atom matches r1 st1) (a_index atom + 1) str 0
                          False None 0, h1)
              else
                (case r1 of
                   None \<Rightarrow> Inr (lazy_pushed atom matches r1 st1, h1)
                 | Some str \<Rightarrow>
                     if recursive
                     then lazy_loop k' cm e atom gr head nest str (matches + 1) False None 0
                            (lazy_pushed atom matches r1 st1) h1
                     else lazy_loop k' cm e atom gr head nest str (matches + 1) recursive inner nbr
                            (lazy_pushed atom matches r1 st1) h1)) = Inr (stack', h')"
      unfolding prod.case Let_def lp .
    show ?thesis
    proof (cases "matches \<ge> lo (a_range atom) \<and> matches \<le> hi (a_range atom)")
      case True
      with rx' dx x Suc show ?thesis by auto
    next
      case nr: False
      show ?thesis
      proof (cases r1)
        case None
        with rx' nr dx x Suc show ?thesis by auto
      next
        case (Some y)
        with rx' nr have "lazy_loop k' cm e atom gr head nest y (matches + 1) False
                             (if recursive then None else inner) (if recursive then 0 else nbr)
                             (lazy_pushed atom matches r1 st1) h1 = Inr (stack', h')"
          by (auto split: if_splits)
        with dx x Suc Some show ?thesis by auto
      qed
    qed
  qed
qed

lemma atom_match_Inr:
  assumes "atom_match n cm e atom stack gr head h = Inr (stack', h')"
  shows "\<exists>tp rest. stack = tp # rest
         \<and> ((\<exists>s r. a_info atom = String s \<and> match_string (input e) s (s_str tp) = Inr r
                  \<and> stack' = NoRangeCase atom stack r \<and> h' = h)
            \<or> (\<exists>c r. a_info atom = LookAhead c
                  \<and> match_lookahead cm e atom (s_str tp) gr head h = Inr (r, h')
                  \<and> stack' = NoRangeCase atom stack r)
            \<or> (\<exists>r. a_info atom = WordAnchor
                  \<and> match_wordanchor e atom (s_str tp) head = Inr r
                  \<and> stack' = NoRangeCase atom stack r \<and> h' = h)
            \<or> (\<exists>r. a_info atom = EdgeAnchor
                  \<and> match_edgeanchor e atom (s_str tp) head = Inr r
                  \<and> stack' = NoRangeCase atom stack r \<and> h' = h)
            \<or> (a_greedy atom
                \<and> greedy_loop n cm e atom gr head (s_nest tp) (s_str tp) (s_matches tp)
                     (s_recursive tp) (s_inner tp) (s_nbr tp) rest h = Inr (stack', h'))
            \<or> (\<not> a_greedy atom
                \<and> lazy_loop n cm e atom gr head (s_nest tp) (s_str tp) (s_matches tp)
                     (s_recursive tp) (s_inner tp) (s_nbr tp) rest h = Inr (stack', h')))"
proof (cases stack)
  case Nil
  with assms show ?thesis by (simp add: atom_match_def)
next
  case (Cons tp rest)
  with assms show ?thesis
    unfolding atom_match_def
    by (cases "a_info atom")
       (auto simp: Let_def bnd_Inr_iff greedy_match_def lazy_match_def split: if_splits)
qed

lemma branch_match_Inr:
  assumes "branch_match k n cm e obj stack gr head h = Inr (r, stack', h')"
  shows "\<exists>k'. k = Suc k'
         \<and> ((stack = [] \<and> r = None \<and> stack' = [] \<and> h' = h)
            \<or> (\<exists>tp rest. stack = tp # rest \<and> s_index tp = length obj
                  \<and> r = Some (s_str tp) \<and> stack' = rest \<and> h' = h)
            \<or> (\<exists>tp rest st1 h1. stack = tp # rest \<and> s_index tp < length obj
                  \<and> atom_match n cm e (obj ! s_index tp) stack gr head h = Inr (st1, h1)
                  \<and> branch_match k' n cm e obj st1 gr head h1 = Inr (r, stack', h')))"
proof (cases k)
  case 0
  with assms show ?thesis by simp
next
  case (Suc k')
  show ?thesis
  proof (cases stack)
    case Nil
    with assms Suc show ?thesis by simp
  next
    case (Cons tp rest)
    with assms Suc show ?thesis
      by (auto simp: bnd_Inr_iff split: if_splits)
  qed
qed

lemma branch_loop_Inr:
  assumes "branch_loop k n cm e obj nbr str groups head stack h = Inr (r, nbr', stack', h')"
  shows "\<exists>k' r1 st1 h1. k = Suc k' \<and> nbr < length (c_start obj)
         \<and> branch_match n n cm e (c_start obj ! nbr) stack groups head h = Inr (r1, st1, h1)
         \<and> ((r1 \<noteq> None \<and> r = r1 \<and> nbr' = nbr \<and> stack' = st1 \<and> h' = h1)
            \<or> (r1 = None \<and> Suc nbr < length (c_start obj)
                \<and> branch_loop k' n cm e obj (Suc nbr) str groups head
                     (bts_push st1 0 str 0 False None 0) h1 = Inr (r, nbr', stack', h'))
            \<or> (r1 = None \<and> \<not> Suc nbr < length (c_start obj)
                \<and> r = None \<and> nbr' = nbr \<and> stack' = [] \<and> bts_free st1 h1 = Inr h'))"
proof (cases k)
  case 0
  with assms show ?thesis by simp
next
  case (Suc k')
  with assms have nb: "nbr < length (c_start obj)" by (auto split: if_splits)
  from assms Suc nb obtain x where
    bx: "branch_match n n cm e (c_start obj ! nbr) stack groups head h = Inr x"
    and rx: "(\<lambda>(r, stack, h).
          case r of
            Some en \<Rightarrow> Inr (Some en, nbr, stack, h)
          | None \<Rightarrow>
              if Suc nbr < length (c_start obj)
              then branch_loop k' n cm e obj (Suc nbr) str groups head
                     (bts_push stack 0 str 0 False None 0) h
              else bnd (bts_free stack h) (\<lambda>h. Inr (None, nbr, [], h))) x
         = Inr (r, nbr', stack', h')"
    by (auto simp: bnd_Inr_iff simp del: split_paired_Ex)
  obtain r1 st1 h1 where x: "x = (r1, st1, h1)" by (cases x)
  show ?thesis
  proof (cases r1)
    case None
    with rx x bx nb Suc show ?thesis by (auto simp: bnd_Inr_iff split: if_splits)
  next
    case (Some en)
    with rx x bx nb Suc show ?thesis by auto
  qed
qed

subsection \<open>An invariant of the captures\<close>

text \<open>
  Relative to a position \<open>p\<close>, a group is good when it is unset or lies at or
  behind \<open>p\<close> with \<open>begin \<le> end\<close>; a heap is good when every group of every live
  array is; a stack is good when every state of it, and of the stacks saved in
  it, is at or behind \<open>p\<close>.
\<close>

definition good_group :: "int \<Rightarrow> group_t \<Rightarrow> bool" where
  "good_group p g =
     (case gbegin g of
        None \<Rightarrow> True
      | Some b \<Rightarrow> (case gend g of None \<Rightarrow> False | Some e \<Rightarrow> p \<le> b \<and> b \<le> e))"

definition good_heap :: "int \<Rightarrow> heap \<Rightarrow> bool" where
  "good_heap p h \<longleftrightarrow> (\<forall>a < length h. \<forall>arr. h ! a = Some arr \<longrightarrow> (\<forall>g \<in> set arr. good_group p g))"

fun good_stack :: "int \<Rightarrow> bts_t \<Rightarrow> bool" where
  "good_stack p [] = True"
| "good_stack p (State i m s inn nest nbr rc # rest) =
     (p \<le> s \<and> (\<not> rc \<longrightarrow> inn = None)
      \<and> (case inn of None \<Rightarrow> True | Some st \<Rightarrow> good_stack s st) \<and> good_stack p rest)"

definition good_inner :: "int \<Rightarrow> bts_t option \<Rightarrow> bool" where
  "good_inner p inn = (case inn of None \<Rightarrow> True | Some st \<Rightarrow> good_stack p st)"

definition cm_ok :: "int \<Rightarrow> cm_t \<Rightarrow> bool" where
  "cm_ok p0 cm \<longleftrightarrow>
     (\<forall>obj str outer groups stack nbr head h r outer' h'.
        cm obj str outer groups stack nbr head h = Inr (r, outer', h') \<longrightarrow>
        p0 \<le> str \<longrightarrow> good_heap p0 h \<longrightarrow> good_inner str stack \<longrightarrow>
          good_heap p0 h' \<and>
          (case r of
             None \<Rightarrow> outer' = outer
           | Some (g, en) \<Rightarrow>
               str \<le> en \<and>
               (case outer of
                  None \<Rightarrow> outer' = None
                | Some out \<Rightarrow>
                    (\<exists>i m inn nbr'. outer' = Some (State i m str inn None nbr' True # out)
                        \<and> good_inner str inn))))"

lemma good_stack_mono: "good_stack p st \<Longrightarrow> q \<le> p \<Longrightarrow> good_stack q st"
  by (induction p st rule: good_stack.induct) auto

lemma good_heap_append:
  "good_heap p h \<Longrightarrow> \<forall>g \<in> set arr. good_group p g \<Longrightarrow> good_heap p (h @ [Some arr])"
  by (auto simp: good_heap_def nth_append)

lemma good_heap_shrunk: "good_heap p h \<Longrightarrow> shrunk h h' \<Longrightarrow> good_heap p h'"
  unfolding good_heap_def shrunk_def by (metis option.distinct(1))

lemma good_heap_deref: "good_heap p h \<Longrightarrow> deref h a = Inr arr \<Longrightarrow> \<forall>g \<in> set arr. good_group p g"
  by (auto simp: good_heap_def deref_def split: if_splits option.splits)

lemma slot_write_good:
  assumes "slot_write h a slot g = Inr h'" "good_heap p h" "good_group p g"
  shows "good_heap p h'"
proof -
  from assms(1) obtain i arr where s: "slot = Some i" "deref h a = Inr arr" "i < length arr"
      "h' = h[a := Some (arr[i := g])]"
    by (auto simp: slot_write_def bnd_Inr_iff split: option.splits if_splits)
  from good_heap_deref[OF assms(2) s(2)] assms(3)
  have "\<forall>x \<in> set (arr[i := g]). good_group p x"
    by (auto dest!: set_update_subset_insert[THEN subsetD])
  moreover from s(2) have "a < length h" by (auto simp: deref_def split: if_splits)
  ultimately show ?thesis using assms(2) s(4)
    unfolding good_heap_def by (auto simp: nth_list_update split: if_splits)
qed

lemma range_new_good:
  "range_new sz h = Inr (g, h') \<Longrightarrow> good_heap p h \<Longrightarrow> good_heap p h'"
  by (auto simp: range_new_def good_group_def split: if_splits intro!: good_heap_append)

lemma range_copy_good:
  "range_copy a h = Inr (g, h') \<Longrightarrow> good_heap p h \<Longrightarrow> good_heap p h'"
  by (auto simp: range_copy_def bnd_Inr_iff intro!: good_heap_append dest: good_heap_deref)

lemma range_free_good:
  "range_free a h = Inr h' \<Longrightarrow> good_heap p h \<Longrightarrow> good_heap p h'"
  by (blast intro: good_heap_shrunk range_free_shrunk)

lemma bts_free_good:
  "bts_free st h = Inr h' \<Longrightarrow> good_heap p h \<Longrightarrow> good_heap p h'"
  by (blast intro: good_heap_shrunk bts_free_shrunk)

lemma match_string_ge: "match_string b ms str = Inr (Some en) \<Longrightarrow> str \<le> en"
proof (induction ms arbitrary: str)
  case Nil
  then show ?case by simp
next
  case (Cons m ms)
  from Cons.prems have "match_string b ms (str + 1) = Inr (Some en)"
    by (auto split: option.splits if_splits)
  from Cons.IH[OF this] show ?case by simp
qed

lemma reference_loop_ge: "reference_loop b bg en str = Inr (Some x) \<Longrightarrow> str \<le> x"
proof (induction b bg en str rule: reference_loop.induct)
  case (1 b bg en str)
  show ?case
  proof (cases "bg = en")
    case True
    with "1.prems" show ?thesis by (subst (asm) reference_loop.simps) simp
  next
    case False
    with "1.prems" obtain c d where cd: "rd b str = Some c" "c \<noteq> 0" "rd b bg = Some d" "\<not> d \<noteq> c"
        "reference_loop b (bg + 1) en (str + 1) = Inr (Some x)"
      by (subst (asm) reference_loop.simps) (auto split: option.splits if_splits)
    from "1.IH"[OF False cd(1) cd(2) cd(3) cd(4) cd(5)] show ?thesis by simp
  qed
qed

lemma match_reference_ge: "match_reference e atom str gr h = Inr (Some x) \<Longrightarrow> str \<le> x"
  by (auto simp: match_reference_def bnd_Inr_iff split: atom_info.splits option.splits
           dest: reference_loop_ge)

lemma decode_gt: "decode b p = Inr (cp, en) \<Longrightarrow> p < en"
  by (auto simp: decode_def Let_def split: option.splits if_splits)

lemma match_class_ge: "match_class e atom str = Inr (Some x) \<Longrightarrow> str \<le> x"
  by (auto simp: match_class_def bnd_Inr_iff TRUe_def FALSe_def
           split: atom_info.splits if_splits dest!: decode_gt)

lemma match_wordanchor_eq: "match_wordanchor e atom str head = Inr (Some x) \<Longrightarrow> x = str"
  by (auto simp: match_wordanchor_def Let_def TRUe_def FALSe_def split: option.splits if_splits)

lemma match_edgeanchor_eq: "match_edgeanchor e atom str head = Inr (Some x) \<Longrightarrow> x = str"
  by (auto simp: match_edgeanchor_def split: option.splits if_splits)

lemma cm_okD:
  assumes "cm_ok p0 cm" "cm obj str outer groups stack nbr head h = Inr (r, outer', h')"
    "p0 \<le> str" "good_heap p0 h" "good_inner str stack"
  shows "good_heap p0 h'"
    and "r = None \<Longrightarrow> outer' = outer"
    and "r = Some (g, en) \<Longrightarrow> str \<le> en"
    and "r = Some (g, en) \<Longrightarrow> outer = None \<Longrightarrow> outer' = None"
    and "r = Some (g, en) \<Longrightarrow> outer = Some out \<Longrightarrow>
           \<exists>i m inn nbr'. outer' = Some (State i m str inn None nbr' True # out) \<and> good_inner str inn"
proof -
  from assms have a: "good_heap p0 h' \<and>
          (case r of
             None \<Rightarrow> outer' = outer
           | Some (g, en) \<Rightarrow>
               str \<le> en \<and>
               (case outer of
                  None \<Rightarrow> outer' = None
                | Some out \<Rightarrow>
                    (\<exists>i m inn nbr'. outer' = Some (State i m str inn None nbr' True # out)
                        \<and> good_inner str inn)))"
    unfolding cm_ok_def by blast
  from a show "good_heap p0 h'" by simp
  from a show "r = None \<Longrightarrow> outer' = outer" by simp
  from a show "r = Some (g, en) \<Longrightarrow> str \<le> en" by simp
  from a show "r = Some (g, en) \<Longrightarrow> outer = None \<Longrightarrow> outer' = None" by simp
  from a show "r = Some (g, en) \<Longrightarrow> outer = Some out \<Longrightarrow>
           \<exists>i m inn nbr'. outer' = Some (State i m str inn None nbr' True # out) \<and> good_inner str inn"
    by simp
qed


lemma good_inner_None [simp]: "good_inner p None"
  by (simp add: good_inner_def)

lemma match_lookahead_ok:
  assumes "cm_ok p0 cm" "match_lookahead cm e atom str gr head h = Inr (r, h')"
    "p0 \<le> str" "good_heap p0 h"
  shows "good_heap p0 h' \<and> (\<forall>x. r = Some x \<longrightarrow> x = str)"
proof -
  from match_lookahead_Inr[OF assms(2)] obtain c r1 o1 where
    c: "cm c str None (Some gr) None 0 head h = Inr (r1, o1, h')"
    and r: "r = (if r1 = None then FALSe atom str else TRUe atom str)"
    by blast
  from cm_okD(1)[OF assms(1) c assms(3,4)] have "good_heap p0 h'" by simp
  with r show ?thesis by (auto simp: TRUe_def FALSe_def split: if_splits)
qed

lemma match_atomic_ok:
  assumes "cm_ok p0 cm" "match_atomic cm e atom str gr head h = Inr (r, h')"
    "p0 \<le> str" "good_heap p0 h"
  shows "good_heap p0 h' \<and> (\<forall>x. r = Some x \<longrightarrow> str \<le> x)"
proof -
  from match_atomic_Inr[OF assms(2)] obtain c r1 o1 where
    c: "cm c str None (Some gr) None 0 head h = Inr (r1, o1, h')"
    and r: "r = map_option snd r1"
    by blast
  have gi: "good_inner str None" by simp
  from cm_okD(1)[OF assms(1) c assms(3,4) gi] have "good_heap p0 h'" .
  moreover have "\<forall>x. r = Some x \<longrightarrow> str \<le> x"
  proof (intro allI impI)
    fix x assume "r = Some x"
    with r obtain g where "r1 = Some (g, x)" by (cases r1) auto
    from cm_okD(3)[OF assms(1) c assms(3,4) gi this] show "str \<le> x" .
  qed
  ultimately show ?thesis by simp
qed

lemma after_match_good:
  assumes "after_match atom matches nest (State i m s inn ne nb True # rest) stack'"
    and "q \<le> s" "good_inner s inn" "good_stack q rest"
  shows "good_stack q stack'"
  using assms
  by (auto simp: after_match_def bts_set_top_def good_inner_def split: if_splits option.splits)

lemma match_group_ok:
  assumes "cm_ok p0 cm"
    "match_group cm e atom matches str gr stack inner nbr head h = Inr (r, stack', h')"
    "p0 \<le> str" "q \<le> str" "good_heap p0 h" "good_stack q stack" "good_inner str inner"
  shows "good_heap p0 h' \<and> good_stack q stack' \<and> (\<forall>x. r = Some x \<longrightarrow> str \<le> x)"
proof -
  from match_group_Inr[OF assms(2)] obtain c r1 st1 where
    c: "cm c str (Some stack) (Some gr) inner nbr head h = Inr (r1, Some st1, h')"
    and r: "r = map_option snd r1"
    and st: "if r1 = None then stack' = st1 else after_match atom matches None st1 stack'"
    by blast
  note ok = cm_okD[OF assms(1) c assms(3,5,7)]
  show ?thesis
  proof (cases r1)
    case None
    with r st ok(2) assms(6) ok(1) show ?thesis by auto
  next
    case (Some ge)
    obtain g en where ge: "ge = (g, en)" by (cases ge)
    from ok(5)[OF Some[unfolded ge] refl] obtain i m inn nbr' where
      st1: "st1 = State i m str inn None nbr' True # stack" and gi: "good_inner str inn"
      by auto
    from ok(3)[OF Some[unfolded ge]] have le: "str \<le> en" .
    from st Some st1 have "after_match atom matches None (State i m str inn None nbr' True # stack) stack'"
      by simp
    from after_match_good[OF this assms(4) gi assms(6)] ok(1) le r Some ge
    show ?thesis by simp
  qed
qed

lemma match_subroutine_ok:
  assumes "cm_ok p0 cm"
    "match_subroutine cm e atom matches str gr stack inner nbr head nest h = Inr (r, stack', h')"
    "p0 \<le> str" "q \<le> str" "good_heap p0 h" "good_stack q stack" "good_inner str inner"
  shows "good_heap p0 h' \<and> good_stack q stack' \<and> (\<forall>x. r = Some x \<longrightarrow> str \<le> x)"
proof -
  from match_subroutine_Inr[OF assms(2)] obtain temp h1 c r1 st1 h2 where
    t: "(case nest of None \<Rightarrow> range_copy gr h | Some n \<Rightarrow> Inr (n, h)) = Inr (temp, h1)"
    and c: "cm c str (Some stack) (Some temp) inner nbr head h1 = Inr (r1, Some st1, h2)"
    and r: "r = map_option snd r1"
    and st: "(case r1 of
                None \<Rightarrow> stack' = st1 \<and> range_free (Some temp) h2 = Inr h'
              | Some (g, en) \<Rightarrow>
                  after_match atom matches (Some g) st1 stack'
                  \<and> (if s_inner (hd st1) = None then range_free (Some g) h2 = Inr h'
                      else h' = h2))"
    by blast
  from t assms(5) have g1: "good_heap p0 h1"
    by (cases nest) (auto dest: range_copy_good)
  note ok = cm_okD[OF assms(1) c assms(3) g1 assms(7)]
  show ?thesis
  proof (cases r1)
    case None
    with r st ok(1) ok(2)[OF None] assms(6) show ?thesis by (auto dest: range_free_good)
  next
    case (Some ge)
    obtain g en where ge: "ge = (g, en)" by (cases ge)
    from ok(5)[OF Some[unfolded ge] refl] obtain i m inn nbr' where
      st1: "st1 = State i m str inn None nbr' True # stack" and gi: "good_inner str inn"
      by auto
    from ok(3)[OF Some[unfolded ge]] have le: "str \<le> en" .
    from st Some ge st1
    have am: "after_match atom matches (Some g) (State i m str inn None nbr' True # stack) stack'"
      and hh: "range_free (Some g) h2 = Inr h' \<or> h' = h2"
      by (auto split: if_splits)
    from hh ok(1) have "good_heap p0 h'" by (auto dest: range_free_good)
    with after_match_good[OF am assms(4) gi assms(6)] le r Some ge
    show ?thesis by simp
  qed
qed

lemma DoMatch_ok:
  assumes "cm_ok p0 cm"
    "DoMatch cm e atom matches str gr stack inner nbr head nest h = Inr (r, stack', h')"
    "p0 \<le> str" "q \<le> str" "good_heap p0 h" "good_stack q stack" "good_inner str inner"
  shows "good_heap p0 h' \<and> good_stack q stack' \<and> (\<forall>x. r = Some x \<longrightarrow> str \<le> x)"
  using DoMatch_Inr[OF assms(2)]
proof (elim disjE exE conjE)
  fix c assume "match_class e atom str = Inr r" "stack' = stack" "h' = h"
  with assms show ?thesis by (auto dest: match_class_ge)
next
  fix i assume "match_reference e atom str gr h = Inr r" "stack' = stack" "h' = h"
  with assms show ?thesis by (auto dest: match_reference_ge)
next
  fix c assume "match_group cm e atom matches str gr stack inner nbr head h = Inr (r, stack', h')"
  from match_group_ok[OF assms(1) this assms(3-7)] show ?thesis .
next
  fix i assume "match_subroutine cm e atom matches str gr stack inner nbr head nest h
     = Inr (r, stack', h')"
  from match_subroutine_ok[OF assms(1) this assms(3-7)] show ?thesis .
next
  fix c assume "match_atomic cm e atom str gr head h = Inr (r, h')" "stack' = stack"
  with match_atomic_ok[OF assms(1) _ assms(3,5)] assms(6) show ?thesis by blast
qed

lemma greedy_pushed_good:
  "good_stack q stack \<Longrightarrow> q \<le> str \<Longrightarrow> good_stack q (greedy_pushed atom matches str stack)"
  by (simp add: greedy_pushed_def bts_push_def)

lemma greedy_loop_ok:
  assumes "cm_ok p0 cm"
    "greedy_loop k cm e atom gr head nest str matches recursive inner nbr stack h
     = Inr (stack', h')"
    "p0 \<le> str" "q \<le> str" "good_heap p0 h" "good_stack q stack" "good_inner str inner"
    "\<not> recursive \<longrightarrow> inner = None"
  shows "good_heap p0 h' \<and> good_stack q stack'"
  using assms(2-)
proof (induction k arbitrary: str matches recursive inner nbr stack h)
  case 0
  then show ?case by simp
next
  case (Suc k)
  let ?st = "greedy_pushed atom matches str stack"
  have gst: "good_stack q ?st" using Suc.prems(3,5) by (simp add: greedy_pushed_good)
  from greedy_loop_Inr[OF Suc.prems(1)]
  consider (stop) "stack' = ?st" "h' = h"
    | (fail) "DoMatch cm e atom matches str gr ?st inner nbr head nest h = Inr (None, stack', h')"
    | (step) x st1 h1 where
        "DoMatch cm e atom matches str gr ?st inner nbr head nest h = Inr (Some x, st1, h1)"
        "greedy_loop k cm e atom gr head nest x (matches + 1) False
           (if recursive then None else inner) (if recursive then 0 else nbr) st1 h1
         = Inr (stack', h')"
    by auto
  then show ?case
  proof cases
    case stop
    with gst Suc.prems(4) show ?thesis by simp
  next
    case fail
    from DoMatch_ok[OF assms(1) fail Suc.prems(2,3,4) gst Suc.prems(6)] show ?thesis by simp
  next
    case step
    from DoMatch_ok[OF assms(1) step(1) Suc.prems(2,3,4) gst Suc.prems(6)]
    have d: "good_heap p0 h1" "good_stack q st1" "str \<le> x" by auto
    have gi: "good_inner x (if recursive then None else inner)"
      using Suc.prems(7) by auto
    have nn: "\<not> False \<longrightarrow> (if recursive then None else inner) = None"
      using Suc.prems(7) by simp
    have "p0 \<le> x" "q \<le> x" using d(3) Suc.prems(2,3) by simp_all
    from Suc.IH[OF step(2) this d(1) d(2) gi nn] show ?thesis .
  qed
qed

lemma lazy_pushed_good:
  "good_stack q stack \<Longrightarrow> \<forall>x. r = Some x \<longrightarrow> q \<le> x \<Longrightarrow> good_stack q (lazy_pushed atom matches r stack)"
  by (cases r) (auto simp: lazy_pushed_def bts_push_def)

lemma lazy_loop_ok:
  assumes "cm_ok p0 cm"
    "lazy_loop k cm e atom gr head nest str matches recursive inner nbr stack h
     = Inr (stack', h')"
    "p0 \<le> str" "q \<le> str" "good_heap p0 h" "good_stack q stack" "good_inner str inner"
    "\<not> recursive \<longrightarrow> inner = None"
  shows "good_heap p0 h' \<and> good_stack q stack'"
  using assms(2-)
proof (induction k arbitrary: str matches recursive inner nbr stack h)
  case 0
  then show ?case by simp
next
  case (Suc k)
  from lazy_loop_Inr[OF Suc.prems(1)]
  consider (stop) "stack' = stack" "h' = h"
    | (go) r1 st1 h1 where
        "(if matches \<noteq> hi (a_range atom)
          then DoMatch cm e atom matches str gr stack inner nbr head nest h
          else Inr (Some str, stack, h)) = Inr (r1, st1, h1)"
        "(stack' = bts_push (lazy_pushed atom matches r1 st1) (a_index atom + 1) str 0
                                 False None 0 \<and> h' = h1)
         \<or> (r1 = None \<and> stack' = lazy_pushed atom matches r1 st1 \<and> h' = h1)
         \<or> (\<exists>x. r1 = Some x
              \<and> lazy_loop k cm e atom gr head nest x (matches + 1) False
                  (if recursive then None else inner) (if recursive then 0 else nbr)
                  (lazy_pushed atom matches r1 st1) h1 = Inr (stack', h'))"
    by auto
  then show ?case
  proof cases
    case stop
    with Suc.prems show ?thesis by simp
  next
    case go
    have d: "good_heap p0 h1 \<and> good_stack q st1 \<and> (\<forall>x. r1 = Some x \<longrightarrow> str \<le> x)"
    proof (cases "matches \<noteq> hi (a_range atom)")
      case True
      with go(1) have "DoMatch cm e atom matches str gr stack inner nbr head nest h
         = Inr (r1, st1, h1)" by simp
      from DoMatch_ok[OF assms(1) this Suc.prems(2,3,4,5,6)] show ?thesis .
    next
      case False
      with go(1) Suc.prems show ?thesis by auto
    qed
    then have lp: "good_stack q (lazy_pushed atom matches r1 st1)"
      using Suc.prems(3) by (intro lazy_pushed_good) auto
    from go(2) show ?thesis
    proof (elim disjE exE conjE)
      assume "stack' = bts_push (lazy_pushed atom matches r1 st1) (a_index atom + 1) str 0
                                 False None 0" "h' = h1"
      with lp d Suc.prems(3) show ?thesis by (simp add: bts_push_def)
    next
      assume "r1 = None" "stack' = lazy_pushed atom matches r1 st1" "h' = h1"
      with lp d show ?thesis by simp
    next
      fix x assume x: "r1 = Some x"
        "lazy_loop k cm e atom gr head nest x (matches + 1) False
                  (if recursive then None else inner) (if recursive then 0 else nbr)
                  (lazy_pushed atom matches r1 st1) h1 = Inr (stack', h')"
      from d x(1) have le: "str \<le> x" by simp
      have gi: "good_inner x (if recursive then None else inner)"
        using Suc.prems(7) by auto
      have nn: "\<not> False \<longrightarrow> (if recursive then None else inner) = None"
        using Suc.prems(7) by simp
      have "p0 \<le> x" "q \<le> x" using le Suc.prems(2,3) by simp_all
      moreover have "good_heap p0 h1" using d by simp
      ultimately show ?thesis using Suc.IH[OF x(2) _ _ _ lp gi nn] by simp
    qed
  qed
qed

lemma NoRangeCase_good:
  assumes "good_stack q (tp # rest)" "\<forall>x. r = Some x \<longrightarrow> s_str tp \<le> x"
  shows "good_stack q (NoRangeCase atom (tp # rest) r)"
  using assms by (cases tp; cases r) (auto simp: NoRangeCase_def bts_push_def)

lemma atom_match_ok:
  assumes "cm_ok p0 cm" "atom_match n cm e atom stack gr head h = Inr (stack', h')"
    "p0 \<le> q" "good_heap p0 h" "good_stack q stack"
  shows "good_heap p0 h' \<and> good_stack q stack'"
proof -
  from atom_match_Inr[OF assms(2)] obtain tp rest where st: "stack = tp # rest"
    and cases: "(\<exists>s r. a_info atom = String s \<and> match_string (input e) s (s_str tp) = Inr r
                  \<and> stack' = NoRangeCase atom stack r \<and> h' = h)
            \<or> (\<exists>c r. a_info atom = LookAhead c
                  \<and> match_lookahead cm e atom (s_str tp) gr head h = Inr (r, h')
                  \<and> stack' = NoRangeCase atom stack r)
            \<or> (\<exists>r. a_info atom = WordAnchor
                  \<and> match_wordanchor e atom (s_str tp) head = Inr r
                  \<and> stack' = NoRangeCase atom stack r \<and> h' = h)
            \<or> (\<exists>r. a_info atom = EdgeAnchor
                  \<and> match_edgeanchor e atom (s_str tp) head = Inr r
                  \<and> stack' = NoRangeCase atom stack r \<and> h' = h)
            \<or> (a_greedy atom
                \<and> greedy_loop n cm e atom gr head (s_nest tp) (s_str tp) (s_matches tp)
                     (s_recursive tp) (s_inner tp) (s_nbr tp) rest h = Inr (stack', h'))
            \<or> (\<not> a_greedy atom
                \<and> lazy_loop n cm e atom gr head (s_nest tp) (s_str tp) (s_matches tp)
                     (s_recursive tp) (s_inner tp) (s_nbr tp) rest h = Inr (stack', h'))"
    by blast
  from assms(5) st have tp: "q \<le> s_str tp" "good_inner (s_str tp) (s_inner tp)"
    "\<not> s_recursive tp \<longrightarrow> s_inner tp = None" "good_stack q rest"
    by (cases tp; auto simp: good_inner_def)+
  from tp(1) assms(3) have p0: "p0 \<le> s_str tp" by simp
  from cases show ?thesis
  proof (elim disjE exE conjE)
    fix s r assume "match_string (input e) s (s_str tp) = Inr r"
      "stack' = NoRangeCase atom stack r" "h' = h"
    with assms(4,5) st show ?thesis
      by (auto intro!: NoRangeCase_good dest: match_string_ge)
  next
    fix c r assume a: "match_lookahead cm e atom (s_str tp) gr head h = Inr (r, h')"
      "stack' = NoRangeCase atom stack r"
    from match_lookahead_ok[OF assms(1) a(1) p0 assms(4)] a(2) assms(5) st
    show ?thesis by (auto intro!: NoRangeCase_good)
  next
    fix r assume "match_wordanchor e atom (s_str tp) head = Inr r"
      "stack' = NoRangeCase atom stack r" "h' = h"
    with assms(4,5) st show ?thesis
      by (auto intro!: NoRangeCase_good dest: match_wordanchor_eq)
  next
    fix r assume "match_edgeanchor e atom (s_str tp) head = Inr r"
      "stack' = NoRangeCase atom stack r" "h' = h"
    with assms(4,5) st show ?thesis
      by (auto intro!: NoRangeCase_good dest: match_edgeanchor_eq)
  next
    assume "greedy_loop n cm e atom gr head (s_nest tp) (s_str tp) (s_matches tp)
                     (s_recursive tp) (s_inner tp) (s_nbr tp) rest h = Inr (stack', h')"
    from greedy_loop_ok[OF assms(1) this p0 tp(1) assms(4) tp(4) tp(2) tp(3)]
    show ?thesis .
  next
    assume "lazy_loop n cm e atom gr head (s_nest tp) (s_str tp) (s_matches tp)
                     (s_recursive tp) (s_inner tp) (s_nbr tp) rest h = Inr (stack', h')"
    from lazy_loop_ok[OF assms(1) this p0 tp(1) assms(4) tp(4) tp(2) tp(3)]
    show ?thesis .
  qed
qed

lemma branch_match_ok:
  assumes "cm_ok p0 cm" "branch_match k n cm e obj stack gr head h = Inr (r, stack', h')"
    "p0 \<le> q" "good_heap p0 h" "good_stack q stack"
  shows "good_heap p0 h' \<and> good_stack q stack' \<and> (\<forall>x. r = Some x \<longrightarrow> q \<le> x)"
  using assms(2-)
proof (induction k arbitrary: stack h)
  case 0
  then show ?case by simp
next
  case (Suc k)
  from branch_match_Inr[OF Suc.prems(1)]
  consider (empty) "stack = []" "r = None" "stack' = []" "h' = h"
    | (fin) tp rest where "stack = tp # rest" "r = Some (s_str tp)" "stack' = rest" "h' = h"
    | (step) st1 h1 where
        "atom_match n cm e (obj ! s_index (hd stack)) stack gr head h = Inr (st1, h1)"
        "branch_match k n cm e obj st1 gr head h1 = Inr (r, stack', h')"
    by auto
  then show ?case
  proof cases
    case empty
    with Suc.prems show ?thesis by simp
  next
    case fin
    with Suc.prems show ?thesis by (cases tp) auto
  next
    case step
    from atom_match_ok[OF assms(1) step(1) Suc.prems(2,3,4)]
    have "good_heap p0 h1" "good_stack q st1" by auto
    from Suc.IH[OF step(2) Suc.prems(2) this] show ?thesis .
  qed
qed

lemma branch_loop_ok:
  assumes "cm_ok p0 cm"
    "branch_loop k n cm e obj nbr str groups head stack h = Inr (r, nbr', stack', h')"
    "p0 \<le> str" "good_heap p0 h" "good_stack str stack"
  shows "good_heap p0 h' \<and> good_stack str stack' \<and> (\<forall>x. r = Some x \<longrightarrow> str \<le> x)"
  using assms(2-)
proof (induction k arbitrary: nbr stack h)
  case 0
  then show ?case by simp
next
  case (Suc k)
  from branch_loop_Inr[OF Suc.prems(1)] obtain r1 st1 h1 where
    bm: "branch_match n n cm e (c_start obj ! nbr) stack groups head h = Inr (r1, st1, h1)"
    and rest: "(r1 \<noteq> None \<and> r = r1 \<and> nbr' = nbr \<and> stack' = st1 \<and> h' = h1)
            \<or> (r1 = None \<and> Suc nbr < length (c_start obj)
                \<and> branch_loop k n cm e obj (Suc nbr) str groups head
                     (bts_push st1 0 str 0 False None 0) h1 = Inr (r, nbr', stack', h'))
            \<or> (r1 = None \<and> \<not> Suc nbr < length (c_start obj)
                \<and> r = None \<and> nbr' = nbr \<and> stack' = [] \<and> bts_free st1 h1 = Inr h')"
    by auto
  from branch_match_ok[OF assms(1) bm Suc.prems(2,3,4)]
  have d: "good_heap p0 h1" "good_stack str st1" "\<forall>x. r1 = Some x \<longrightarrow> str \<le> x" by auto
  from rest show ?case
  proof (elim disjE conjE)
    assume "r = r1" "stack' = st1" "h' = h1"
    with d show ?thesis by simp
  next
    assume a: "branch_loop k n cm e obj (Suc nbr) str groups head
                     (bts_push st1 0 str 0 False None 0) h1 = Inr (r, nbr', stack', h')"
    have "good_stack str (bts_push st1 0 str 0 False None 0)"
      using d(2) by (simp add: bts_push_def)
    from Suc.IH[OF a Suc.prems(2) d(1) this] show ?thesis .
  next
    assume "r = None" "stack' = []" "bts_free st1 h1 = Inr h'"
    with d(1) show ?thesis by (auto dest: bts_free_good)
  qed
qed

lemma FoundMatch_ok:
  assumes f: "FoundMatch obj str outer g captcha en nbr st h = Inr (r, outer', h')"
    and le: "p0 \<le> str" "str \<le> en" and gh: "good_heap p0 h" and gs: "good_stack str st"
  shows "good_heap p0 h' \<and> r = Some (g, en)
         \<and> (case outer of
               None \<Rightarrow> outer' = None
             | Some out \<Rightarrow>
                 (\<exists>i m inn nbr'. outer' = Some (State i m str inn None nbr' True # out)
                     \<and> good_inner str inn))"
  using f
proof (rule FoundMatchE)
  fix h1 o1 h2
  assume w: "(if c_index obj \<ge> 0
              then slot_write h g captcha \<lparr>gbegin = Some str, gend = Some en\<rparr>
              else Inr h) = Inr h1"
    and o: "(case outer of
        Some out \<Rightarrow>
          if st \<noteq> []
          then Inr (Some (bts_push out 0 str 0 True (Some st) nbr), h1)
          else if Suc nbr < length (c_start obj)
          then Inr (Some (bts_push out 0 str 0 True
                            (Some (bts_push st 0 str 0 False None 0)) (Suc nbr)), h1)
          else bnd (bts_free st h1) (\<lambda>h.
                 Inr (Some (bts_push out 0 str 0 True None 0), h))
      | None \<Rightarrow> bnd (bts_free st h1) (\<lambda>h. Inr (None, h))) = Inr (o1, h2)"
    and res: "(r, outer', h') = (Some (g, en), o1, h2)"
  have gg: "good_group p0 \<lparr>gbegin = Some str, gend = Some en\<rparr>"
    using le by (simp add: good_group_def)
  from w gh gg have g1: "good_heap p0 h1"
    by (auto split: if_splits dest: slot_write_good)
  show ?thesis
  proof (cases outer)
    case None
    with o have "bts_free st h1 = Inr h2" "o1 = None" by (auto simp: bnd_Inr_iff)
    with g1 res None show ?thesis by (auto dest: bts_free_good)
  next
    case (Some out)
    from o Some have g2: "good_heap p0 h2"
      using g1 by (auto simp: bnd_Inr_iff split: if_splits dest: bts_free_good)
    from o Some gs have "\<exists>i m inn nbr'. o1 = Some (State i m str inn None nbr' True # out)
                     \<and> good_inner str inn"
      by (auto simp: bnd_Inr_iff bts_push_def good_inner_def split: if_splits)
    with g2 res Some show ?thesis by simp
  qed
qed

lemma core_match_body_ok:
  assumes "cm_ok p0 cm"
  shows "cm_ok p0 (core_match_body n cm e)"
  unfolding cm_ok_def
proof (intro allI impI)
  fix obj str outer groups stack nbr head h r outer' h'
  assume b: "core_match_body n cm e obj str outer groups stack nbr head h = Inr (r, outer', h')"
    and le: "p0 \<le> str" and gh: "good_heap p0 h" and gi: "good_inner str stack"
  let ?goal = "good_heap p0 h' \<and>
          (case r of
             None \<Rightarrow> outer' = outer
           | Some (g, en) \<Rightarrow>
               str \<le> en \<and>
               (case outer of
                  None \<Rightarrow> outer' = None
                | Some out \<Rightarrow>
                    (\<exists>i m inn nbr'. outer' = Some (State i m str inn None nbr' True # out)
                        \<and> good_inner str inn)))"
  let ?st = "(case stack of None \<Rightarrow> bts_push [] 0 str 0 False None 0 | Some s \<Rightarrow> s)"
  from b show ?goal
  proof (rule core_match_bodyE)
    fix g h1 captcha h2 r1 nbr' st h3
    assume 1: "(if c_index obj = 0 \<and> groups = None
      then bnd (range_new (core_groups obj) h) (\<lambda>(g, h). Inr (Some g, h))
      else Inr (groups, h)) = Inr (Some g, h1)"
      and 3: "(if c_index obj \<ge> 0 then slot_write h1 g captcha \<lparr>gbegin = None, gend = None\<rparr>
      else Inr h1) = Inr h2"
      and 6: "branch_loop n n cm e obj nbr str g head ?st h2 = Inr (r1, nbr', st, h3)"
      and 7: "case r1 of
       None \<Rightarrow> \<exists>h4. (if c_index obj = 0 \<and> groups = None then range_free (Some g) h3
                       else Inr h3) = Inr h4 \<and> (r, outer', h') = (None, outer, h4)
     | Some en \<Rightarrow> FoundMatch obj str outer g captcha en nbr' st h3 = Inr (r, outer', h')"
    from 1 gh have g1: "good_heap p0 h1"
      by (auto simp: bnd_Inr_iff split: if_splits dest: range_new_good)
    have "good_group p0 \<lparr>gbegin = None, gend = None\<rparr>" by (simp add: good_group_def)
    with 3 g1 have g2: "good_heap p0 h2"
      by (auto split: if_splits dest: slot_write_good)
    have gst: "good_stack str ?st"
      using gi by (cases stack) (auto simp: bts_push_def good_inner_def)
    from branch_loop_ok[OF assms 6 le g2 gst]
    have d: "good_heap p0 h3" "good_stack str st" "\<forall>x. r1 = Some x \<longrightarrow> str \<le> x" by auto
    show ?goal
    proof (cases r1)
      case None
      with 7 d(1) show ?thesis by (auto split: if_splits dest: range_free_good)
    next
      case (Some en)
      with 7 have f: "FoundMatch obj str outer g captcha en nbr' st h3 = Inr (r, outer', h')"
        by simp
      from d(3) Some have "str \<le> en" by simp
      from FoundMatch_ok[OF f le this d(1) d(2)] this show ?thesis by auto
    qed
  qed
qed

lemma core_match_ok: "cm_ok p0 (core_match n e)"
proof (induction n)
  case 0
  have "core_match 0 e = (\<lambda>obj str outer groups stack nbr head h. Inl OutOfFuel)"
    by (intro ext) simp
  then show ?case by (simp add: cm_ok_def)
next
  case (Suc n)
  have "core_match (Suc n) e = core_match_body n (core_match n e) e"
    by (intro ext) simp
  with core_match_body_ok[OF Suc] show ?case by simp
qed

lemma good_heap_Nil: "good_heap p []"
  by (simp add: good_heap_def)

lemma core_match_top_good:
  assumes "core_match_top n e str head = Inr (Some (arr, en))"
  shows "str \<le> en \<and> (\<forall>g \<in> set arr. good_group str g)"
proof -
  from assms obtain g outer h' where
    c: "core_match n e (pattern_core e) str None None None 0 head [] = Inr (Some (g, en), outer, h')"
    and d: "deref h' g = Inr arr"
    unfolding core_match_top_def
    by (auto simp: bnd_Inr_iff split: option.splits)
  have gi: "good_inner str None" by simp
  have le: "str \<le> str" by simp
  note ok = cm_okD[OF core_match_ok c le good_heap_Nil gi]
  from ok(3)[OF refl] good_heap_deref[OF ok(1) d] show ?thesis by simp
qed

subsection \<open>The cells of the heap that a call can change\<close>

text \<open>
  \<open>nests\<close> are the arrays that a stack holds: the \<open>nest\<close> of each state, and those
  of the stacks saved in the states.  \<open>frame T h h'\<close>: from \<open>h\<close> to \<open>h'\<close> the heap
  has only grown, and among the cells of \<open>h\<close> only those of \<open>T\<close> may differ.
\<close>

fun nests :: "bts_t \<Rightarrow> nat set" where
  "nests [] = {}"
| "nests (State i m s inn nest nbr rc # rest) =
     set_option nest \<union> (case inn of None \<Rightarrow> {} | Some st \<Rightarrow> nests st) \<union> nests rest"

definition nests_opt :: "bts_t option \<Rightarrow> nat set" where
  "nests_opt inn = (case inn of None \<Rightarrow> {} | Some st \<Rightarrow> nests st)"

definition fresh :: "heap \<Rightarrow> nat set" where
  "fresh h = {a. length h \<le> a}"

definition frame :: "nat set \<Rightarrow> heap \<Rightarrow> heap \<Rightarrow> bool" where
  "frame T h h' \<longleftrightarrow> length h \<le> length h' \<and> (\<forall>a. a < length h \<and> a \<notin> T \<longrightarrow> h' ! a = h ! a)"

definition touch :: "atom_t \<Rightarrow> nat \<Rightarrow> nat set" where
  "touch atom gr = (case a_info atom of Subroutine i \<Rightarrow> {} | _ \<Rightarrow> {gr})"

definition cm_fr :: "cm_t \<Rightarrow> bool" where
  "cm_fr cm \<longleftrightarrow>
     (\<forall>obj str outer groups stack nbr head h r outer' h'.
        cm obj str outer groups stack nbr head h = Inr (r, outer', h') \<longrightarrow>
          frame (set_option groups \<union> nests_opt stack) h h'
          \<and> nests_opt outer' \<subseteq> nests_opt outer \<union> nests_opt stack \<union> fresh h
          \<and> (\<forall>g en. r = Some (g, en) \<longrightarrow> groups = Some g \<or> groups = None \<and> length h \<le> g))"

lemma nests_opt_simps [simp]: "nests_opt None = {}" "nests_opt (Some st) = nests st"
  by (simp_all add: nests_opt_def)

lemma nests_Cons:
  "nests (tp # rest) = set_option (s_nest tp) \<union> nests_opt (s_inner tp) \<union> nests rest"
  by (cases tp) (simp add: nests_opt_def)

lemma nests_bts_push [simp]: "nests (bts_push st i s m rc None nbr) = nests st"
  by (simp add: bts_push_def)

lemma nests_bts_push_Some [simp]: "nests (bts_push st i s m rc (Some inn) nbr) = nests inn \<union> nests st"
  by (simp add: bts_push_def)

lemma nests_tl: "nests (tl st) \<subseteq> nests st"
  by (cases st) (auto simp: nests_Cons)

lemma frame_refl: "frame T h h"
  by (simp add: frame_def)

lemma frame_length: "frame T h h' \<Longrightarrow> length h \<le> length h'"
  by (simp add: frame_def)

lemma frame_fresh: "frame T h h' \<Longrightarrow> fresh h' \<subseteq> fresh h"
  by (auto simp: frame_def fresh_def)

lemma frame_mono: "frame T h h' \<Longrightarrow> T \<subseteq> T' \<Longrightarrow> frame T' h h'"
  by (auto simp: frame_def)

lemma frame_step:
  assumes "frame T0 h h1" "frame T1 h1 h2" "T0 \<subseteq> T" "T1 \<subseteq> T \<union> fresh h"
  shows "frame T h h2"
  unfolding frame_def
proof (intro conjI allI impI)
  from assms(1,2) show "length h \<le> length h2" by (simp add: frame_def)
  fix a assume a: "a < length h \<and> a \<notin> T"
  with assms(3) have "a \<notin> T0" by auto
  with a assms(1) have 1: "h1 ! a = h ! a" by (simp add: frame_def)
  from a assms(4) have "a \<notin> T1" by (auto simp: fresh_def)
  moreover from a assms(1) have "a < length h1" by (simp add: frame_def)
  ultimately have "h2 ! a = h1 ! a" using assms(2) by (simp add: frame_def)
  with 1 show "h2 ! a = h ! a" by simp
qed

lemma frameD: "frame T h h' \<Longrightarrow> a < length h \<Longrightarrow> a \<notin> T \<Longrightarrow> h' ! a = h ! a"
  by (simp add: frame_def)

lemma slot_write_frame: "slot_write h a slot g = Inr h' \<Longrightarrow> frame {a} h h'"
  by (auto simp: slot_write_def bnd_Inr_iff frame_def split: option.splits if_splits)

lemma range_new_frame: "range_new sz h = Inr (g, h') \<Longrightarrow> frame {} h h' \<and> g = length h"
  by (auto simp: range_new_def frame_def nth_append split: if_splits)

lemma range_copy_frame: "range_copy gr h = Inr (g, h') \<Longrightarrow> frame {} h h' \<and> g = length h"
  by (auto simp: range_copy_def bnd_Inr_iff frame_def nth_append)

lemma range_free_frame: "range_free ra h = Inr h' \<Longrightarrow> frame (set_option ra) h h'"
  by (cases ra) (auto simp: range_free_def bnd_Inr_iff frame_def)

lemma bts_free_frame: "bts_free st h = Inr h' \<Longrightarrow> frame (nests st) h h'"
proof (induction st h arbitrary: h' rule: bts_free.induct)
  case (1 h)
  then show ?case by (simp add: frame_refl)
next
  case (2 i m s inn nest nbr rc rest h)
  let ?T = "nests (State i m s inn nest nbr rc # rest)"
  show ?case
  proof (cases rc)
    case False
    with "2.prems" have "bts_free rest h = Inr h'" by simp
    from "2.IH"(3)[OF False this] show ?thesis by (rule frame_mono) auto
  next
    case True
    with "2.prems" obtain h1 h2 where
      h1: "(case inn of None \<Rightarrow> Inr h | Some st \<Rightarrow> bts_free st h) = Inr h1"
      and h2: "range_free nest h1 = Inr h2"
      and h3: "bts_free rest h2 = Inr h'"
      by (auto simp: bnd_Inr_iff)
    have a1: "frame (nests_opt inn) h h1"
    proof (cases inn)
      case None
      with h1 show ?thesis by (simp add: frame_refl)
    next
      case (Some st)
      with h1 "2.IH"(1)[OF True Some] show ?thesis by simp
    qed
    note a2 = range_free_frame[OF h2]
    have a3: "frame (nests rest) h2 h'" using "2.IH"(2) True h1 h2 h3 by blast
    have a12: "frame ?T h h2"
      by (rule frame_step[OF a1 a2]) (auto simp: nests_opt_def)
    show ?thesis
      by (rule frame_step[OF a12 a3]) auto
  qed
qed

lemma cm_frD:
  assumes "cm_fr cm" "cm obj str outer groups stack nbr head h = Inr (r, outer', h')"
  shows "frame (set_option groups \<union> nests_opt stack) h h'"
    and "nests_opt outer' \<subseteq> nests_opt outer \<union> nests_opt stack \<union> fresh h"
    and "r = Some (g, en) \<Longrightarrow> groups = Some g \<or> groups = None \<and> length h \<le> g"
proof -
  from assms have a: "frame (set_option groups \<union> nests_opt stack) h h'
          \<and> nests_opt outer' \<subseteq> nests_opt outer \<union> nests_opt stack \<union> fresh h
          \<and> (\<forall>g en. r = Some (g, en) \<longrightarrow> groups = Some g \<or> groups = None \<and> length h \<le> g)"
    unfolding cm_fr_def by blast
  from a show "frame (set_option groups \<union> nests_opt stack) h h'" by simp
  from a show "nests_opt outer' \<subseteq> nests_opt outer \<union> nests_opt stack \<union> fresh h" by simp
  from a show "r = Some (g, en) \<Longrightarrow> groups = Some g \<or> groups = None \<and> length h \<le> g" by simp
qed

lemma match_lookahead_frame:
  assumes "cm_fr cm" "match_lookahead cm e atom str gr head h = Inr (r, h')"
  shows "frame {gr} h h'"
proof -
  from match_lookahead_Inr[OF assms(2)] obtain c r1 o1 where
    c: "cm c str None (Some gr) None 0 head h = Inr (r1, o1, h')" by blast
  from cm_frD(1)[OF assms(1) c] show ?thesis by simp
qed

lemma match_atomic_frame:
  assumes "cm_fr cm" "match_atomic cm e atom str gr head h = Inr (r, h')"
  shows "frame {gr} h h'"
proof -
  from match_atomic_Inr[OF assms(2)] obtain c r1 o1 where
    c: "cm c str None (Some gr) None 0 head h = Inr (r1, o1, h')" by blast
  from cm_frD(1)[OF assms(1) c] show ?thesis by simp
qed

lemma after_match_nests:
  assumes "after_match atom matches nest st1 stack'"
  shows "nests stack' \<subseteq> nests st1 \<union> set_option nest"
proof -
  from assms obtain tp rest where st: "st1 = tp # rest"
    and c: "if s_inner tp = None then stack' = rest
            else bts_set_top st1 (a_index atom) matches nest = Inr stack'"
    unfolding after_match_def by blast
  show ?thesis
  proof (cases "s_inner tp = None")
    case True
    with c st show ?thesis by (auto simp: nests_Cons)
  next
    case False
    with c st show ?thesis by (cases tp) (auto simp: bts_set_top_def)
  qed
qed

lemma match_group_frame:
  assumes "cm_fr cm"
    "match_group cm e atom matches str gr stack inner nbr head h = Inr (r, stack', h')"
  shows "frame ({gr} \<union> nests_opt inner) h h'
         \<and> nests stack' \<subseteq> nests stack \<union> nests_opt inner \<union> fresh h"
proof -
  from match_group_Inr[OF assms(2)] obtain c r1 st1 where
    c: "cm c str (Some stack) (Some gr) inner nbr head h = Inr (r1, Some st1, h')"
    and st: "if r1 = None then stack' = st1 else after_match atom matches None st1 stack'"
    by blast
  note fr = cm_frD(1,2)[OF assms(1) c]
  have "nests stack' \<subseteq> nests st1"
    using st after_match_nests[of atom matches None st1 stack'] by (auto split: if_splits)
  with fr show ?thesis by auto
qed

lemma match_subroutine_frame:
  assumes "cm_fr cm"
    "match_subroutine cm e atom matches str gr stack inner nbr head nest h = Inr (r, stack', h')"
  shows "frame (set_option nest \<union> nests_opt inner) h h'
         \<and> nests stack' \<subseteq> nests stack \<union> set_option nest \<union> nests_opt inner \<union> fresh h"
proof -
  let ?T = "set_option nest \<union> nests_opt inner"
  from match_subroutine_Inr[OF assms(2)] obtain temp h1 c r1 st1 h2 where
    t: "(case nest of None \<Rightarrow> range_copy gr h | Some n \<Rightarrow> Inr (n, h)) = Inr (temp, h1)"
    and c: "cm c str (Some stack) (Some temp) inner nbr head h1 = Inr (r1, Some st1, h2)"
    and st: "(case r1 of
                None \<Rightarrow> stack' = st1 \<and> range_free (Some temp) h2 = Inr h'
              | Some (g, en) \<Rightarrow>
                  after_match atom matches (Some g) st1 stack'
                  \<and> (if s_inner (hd st1) = None then range_free (Some g) h2 = Inr h'
                      else h' = h2))"
    by blast
  from t have f1: "frame {} h h1" and tm: "temp \<in> set_option nest \<union> fresh h"
    by (cases nest; auto simp: frame_refl fresh_def dest: range_copy_frame)+
  note fr = cm_frD[OF assms(1) c]
  from fr(1) have f2: "frame ({temp} \<union> nests_opt inner) h1 h2" by simp
  from fr(2) frame_fresh[OF f1]
  have n1: "nests st1 \<subseteq> nests stack \<union> nests_opt inner \<union> fresh h" by auto
  have f12: "frame ?T h h2"
    by (rule frame_step[OF f1 f2]) (use tm in auto)
  have f3: "frame {temp} h2 h'" and n2: "nests stack' \<subseteq> nests st1 \<union> {temp}"
  proof -
    show "frame {temp} h2 h'"
    proof (cases r1)
      case None
      with st show ?thesis by (auto dest: range_free_frame)
    next
      case (Some ge)
      obtain g en where ge: "ge = (g, en)" by (cases ge)
      from fr(3)[OF Some[unfolded ge]] have "g = temp" by simp
      with st Some ge show ?thesis
        by (auto simp: frame_refl split: if_splits dest: range_free_frame)
    qed
    show "nests stack' \<subseteq> nests st1 \<union> {temp}"
    proof (cases r1)
      case None
      with st show ?thesis by auto
    next
      case (Some ge)
      obtain g en where ge: "ge = (g, en)" by (cases ge)
      from fr(3)[OF Some[unfolded ge]] have "g = temp" by simp
      with st Some ge after_match_nests[of atom matches "Some temp" st1 stack']
      show ?thesis by auto
    qed
  qed
  have "frame ?T h h'"
    by (rule frame_step[OF f12 f3]) (use tm in auto)
  with n1 n2 tm show ?thesis by auto
qed

lemma DoMatch_frame:
  assumes "cm_fr cm"
    "DoMatch cm e atom matches str gr stack inner nbr head nest h = Inr (r, stack', h')"
  shows "frame (touch atom gr \<union> set_option nest \<union> nests_opt inner) h h'
         \<and> nests stack' \<subseteq> nests stack \<union> set_option nest \<union> nests_opt inner \<union> fresh h"
  using DoMatch_Inr[OF assms(2)]
proof (elim disjE exE conjE)
  fix c assume "stack' = stack" "h' = h" "match_class e atom str = Inr r"
  then show ?thesis by (auto simp: frame_refl)
next
  fix i assume "stack' = stack" "h' = h" "match_reference e atom str gr h = Inr r"
  then show ?thesis by (auto simp: frame_refl)
next
  fix c assume a: "a_info atom = Group c"
    "match_group cm e atom matches str gr stack inner nbr head h = Inr (r, stack', h')"
  from match_group_frame[OF assms(1) a(2)] a(1) show ?thesis
    by (auto simp: touch_def elim: frame_mono)
next
  fix i assume a: "a_info atom = Subroutine i"
    "match_subroutine cm e atom matches str gr stack inner nbr head nest h
     = Inr (r, stack', h')"
  from match_subroutine_frame[OF assms(1) a(2)] a(1) show ?thesis
    by (auto simp: touch_def)
next
  fix c assume a: "a_info atom = Atomic c" "match_atomic cm e atom str gr head h = Inr (r, h')"
    "stack' = stack"
  from match_atomic_frame[OF assms(1) a(2)] a(1,3) show ?thesis
    by (auto simp: touch_def elim: frame_mono)
qed

lemma nests_greedy_pushed [simp]: "nests (greedy_pushed atom matches str stack) = nests stack"
  by (simp add: greedy_pushed_def)

lemma nests_lazy_pushed [simp]: "nests (lazy_pushed atom matches r stack) = nests stack"
  by (cases r) (simp_all add: lazy_pushed_def)

lemma nests_NoRangeCase: "nests (NoRangeCase atom stack r) \<subseteq> nests stack"
  using nests_tl[of stack] by (cases r) (auto simp: NoRangeCase_def)

lemma greedy_loop_frame:
  assumes "cm_fr cm"
    "greedy_loop k cm e atom gr head nest str matches recursive inner nbr stack h
     = Inr (stack', h')"
  shows "frame (touch atom gr \<union> set_option nest \<union> nests_opt inner \<union> nests stack) h h'
         \<and> nests stack' \<subseteq> set_option nest \<union> nests_opt inner \<union> nests stack \<union> fresh h"
  using assms(2)
proof (induction k arbitrary: str matches recursive inner nbr stack h)
  case 0
  then show ?case by simp
next
  case (Suc k)
  let ?st = "greedy_pushed atom matches str stack"
  let ?T = "touch atom gr \<union> set_option nest \<union> nests_opt inner \<union> nests stack"
  from greedy_loop_Inr[OF Suc.prems(1)]
  consider (stop) "stack' = ?st" "h' = h"
    | (fail) "DoMatch cm e atom matches str gr ?st inner nbr head nest h = Inr (None, stack', h')"
    | (step) x st1 h1 where
        "DoMatch cm e atom matches str gr ?st inner nbr head nest h = Inr (Some x, st1, h1)"
        "greedy_loop k cm e atom gr head nest x (matches + 1) False
           (if recursive then None else inner) (if recursive then 0 else nbr) st1 h1
         = Inr (stack', h')"
    by auto
  then show ?case
  proof cases
    case stop
    then show ?thesis by (auto simp: frame_refl)
  next
    case fail
    from DoMatch_frame[OF assms(1) fail] show ?thesis
      by (auto elim: frame_mono)
  next
    case step
    let ?inn = "if recursive then None else inner"
    from DoMatch_frame[OF assms(1) step(1)]
    have d: "frame (touch atom gr \<union> set_option nest \<union> nests_opt inner) h h1"
      "nests st1 \<subseteq> nests stack \<union> set_option nest \<union> nests_opt inner \<union> fresh h" by auto
    from Suc.IH[OF step(2)]
    have i: "frame (touch atom gr \<union> set_option nest \<union> nests_opt ?inn \<union> nests st1) h1 h'"
      "nests stack' \<subseteq> set_option nest \<union> nests_opt ?inn \<union> nests st1 \<union> fresh h1" by auto
    have sub: "nests_opt ?inn \<subseteq> nests_opt inner" by simp
    have "frame ?T h h'"
      by (rule frame_step[OF d(1) i(1)]) (use d(2) sub in auto)
    moreover have "nests stack' \<subseteq> set_option nest \<union> nests_opt inner \<union> nests stack \<union> fresh h"
      using i(2) d(2) sub frame_fresh[OF d(1)] by auto
    ultimately show ?thesis by simp
  qed
qed

lemma lazy_loop_frame:
  assumes "cm_fr cm"
    "lazy_loop k cm e atom gr head nest str matches recursive inner nbr stack h
     = Inr (stack', h')"
  shows "frame (touch atom gr \<union> set_option nest \<union> nests_opt inner \<union> nests stack) h h'
         \<and> nests stack' \<subseteq> set_option nest \<union> nests_opt inner \<union> nests stack \<union> fresh h"
  using assms(2)
proof (induction k arbitrary: str matches recursive inner nbr stack h)
  case 0
  then show ?case by simp
next
  case (Suc k)
  let ?T = "touch atom gr \<union> set_option nest \<union> nests_opt inner \<union> nests stack"
  from lazy_loop_Inr[OF Suc.prems(1)]
  consider (stop) "stack' = stack" "h' = h"
    | (go) r1 st1 h1 where
        "(if matches \<noteq> hi (a_range atom)
          then DoMatch cm e atom matches str gr stack inner nbr head nest h
          else Inr (Some str, stack, h)) = Inr (r1, st1, h1)"
        "(stack' = bts_push (lazy_pushed atom matches r1 st1) (a_index atom + 1) str 0
                                 False None 0 \<and> h' = h1)
         \<or> (r1 = None \<and> stack' = lazy_pushed atom matches r1 st1 \<and> h' = h1)
         \<or> (\<exists>x. r1 = Some x
              \<and> lazy_loop k cm e atom gr head nest x (matches + 1) False
                  (if recursive then None else inner) (if recursive then 0 else nbr)
                  (lazy_pushed atom matches r1 st1) h1 = Inr (stack', h'))"
    by auto
  then show ?case
  proof cases
    case stop
    then show ?thesis by (auto simp: frame_refl)
  next
    case go
    have d: "frame (touch atom gr \<union> set_option nest \<union> nests_opt inner) h h1
             \<and> nests st1 \<subseteq> nests stack \<union> set_option nest \<union> nests_opt inner \<union> fresh h"
    proof (cases "matches \<noteq> hi (a_range atom)")
      case True
      with go(1) have "DoMatch cm e atom matches str gr stack inner nbr head nest h
         = Inr (r1, st1, h1)" by simp
      from DoMatch_frame[OF assms(1) this] show ?thesis .
    next
      case False
      with go(1) show ?thesis by (auto simp: frame_refl)
    qed
    from go(2) show ?thesis
    proof (elim disjE exE conjE)
      assume "stack' = bts_push (lazy_pushed atom matches r1 st1) (a_index atom + 1) str 0
                                 False None 0" "h' = h1"
      with d show ?thesis by (auto elim: frame_mono)
    next
      assume "r1 = None" "stack' = lazy_pushed atom matches r1 st1" "h' = h1"
      with d show ?thesis by (auto elim: frame_mono)
    next
      fix x assume x: "r1 = Some x"
        "lazy_loop k cm e atom gr head nest x (matches + 1) False
                  (if recursive then None else inner) (if recursive then 0 else nbr)
                  (lazy_pushed atom matches r1 st1) h1 = Inr (stack', h')"
      let ?inn = "if recursive then None else inner"
      from Suc.IH[OF x(2)]
      have i: "frame (touch atom gr \<union> set_option nest \<union> nests_opt ?inn \<union> nests st1) h1 h'"
        "nests stack' \<subseteq> set_option nest \<union> nests_opt ?inn \<union> nests st1 \<union> fresh h1" by auto
      have sub: "nests_opt ?inn \<subseteq> nests_opt inner" by simp
      from d have d1: "frame (touch atom gr \<union> set_option nest \<union> nests_opt inner) h h1"
        and d2: "nests st1 \<subseteq> nests stack \<union> set_option nest \<union> nests_opt inner \<union> fresh h"
        by auto
      have "frame ?T h h'"
        by (rule frame_step[OF d1 i(1)]) (use d2 sub in auto)
      moreover have "nests stack' \<subseteq> set_option nest \<union> nests_opt inner \<union> nests stack \<union> fresh h"
        using i(2) d2 sub frame_fresh[OF d1] by auto
      ultimately show ?thesis by simp
    qed
  qed
qed

lemma atom_match_frame:
  assumes "cm_fr cm" "atom_match n cm e atom stack gr head h = Inr (stack', h')"
  shows "frame (touch atom gr \<union> nests stack) h h' \<and> nests stack' \<subseteq> nests stack \<union> fresh h"
proof -
  from atom_match_Inr[OF assms(2)] obtain tp rest where st: "stack = tp # rest"
    and cases: "(\<exists>s r. a_info atom = String s \<and> match_string (input e) s (s_str tp) = Inr r
                  \<and> stack' = NoRangeCase atom stack r \<and> h' = h)
            \<or> (\<exists>c r. a_info atom = LookAhead c
                  \<and> match_lookahead cm e atom (s_str tp) gr head h = Inr (r, h')
                  \<and> stack' = NoRangeCase atom stack r)
            \<or> (\<exists>r. a_info atom = WordAnchor
                  \<and> match_wordanchor e atom (s_str tp) head = Inr r
                  \<and> stack' = NoRangeCase atom stack r \<and> h' = h)
            \<or> (\<exists>r. a_info atom = EdgeAnchor
                  \<and> match_edgeanchor e atom (s_str tp) head = Inr r
                  \<and> stack' = NoRangeCase atom stack r \<and> h' = h)
            \<or> (a_greedy atom
                \<and> greedy_loop n cm e atom gr head (s_nest tp) (s_str tp) (s_matches tp)
                     (s_recursive tp) (s_inner tp) (s_nbr tp) rest h = Inr (stack', h'))
            \<or> (\<not> a_greedy atom
                \<and> lazy_loop n cm e atom gr head (s_nest tp) (s_str tp) (s_matches tp)
                     (s_recursive tp) (s_inner tp) (s_nbr tp) rest h = Inr (stack', h'))"
    by blast
  note nr = nests_NoRangeCase[of atom stack]
  from cases show ?thesis
  proof (elim disjE exE conjE)
    fix s r assume "stack' = NoRangeCase atom stack r" "h' = h"
    with nr[of r] show ?thesis by (auto simp: frame_refl)
  next
    fix c r assume a: "a_info atom = LookAhead c"
      "match_lookahead cm e atom (s_str tp) gr head h = Inr (r, h')"
      "stack' = NoRangeCase atom stack r"
    from match_lookahead_frame[OF assms(1) a(2)] a(1) have "frame (touch atom gr \<union> nests stack) h h'"
      by (auto simp: touch_def elim: frame_mono)
    with nr[of r] a(3) show ?thesis by auto
  next
    fix r assume "stack' = NoRangeCase atom stack r" "h' = h"
      "match_wordanchor e atom (s_str tp) head = Inr r"
    with nr[of r] show ?thesis by (auto simp: frame_refl)
  next
    fix r assume "stack' = NoRangeCase atom stack r" "h' = h"
      "match_edgeanchor e atom (s_str tp) head = Inr r"
    with nr[of r] show ?thesis by (auto simp: frame_refl)
  next
    assume "greedy_loop n cm e atom gr head (s_nest tp) (s_str tp) (s_matches tp)
                     (s_recursive tp) (s_inner tp) (s_nbr tp) rest h = Inr (stack', h')"
    from greedy_loop_frame[OF assms(1) this] st show ?thesis
      by (auto simp: nests_Cons Un_assoc)
  next
    assume "lazy_loop n cm e atom gr head (s_nest tp) (s_str tp) (s_matches tp)
                     (s_recursive tp) (s_inner tp) (s_nbr tp) rest h = Inr (stack', h')"
    from lazy_loop_frame[OF assms(1) this] st show ?thesis
      by (auto simp: nests_Cons Un_assoc)
  qed
qed

lemma touch_subset: "touch atom gr \<subseteq> {gr}"
  by (auto simp: touch_def split: atom_info.splits)

lemma branch_match_frame:
  assumes "cm_fr cm" "branch_match k n cm e obj stack gr head h = Inr (r, stack', h')"
  shows "frame ({gr} \<union> nests stack) h h' \<and> nests stack' \<subseteq> nests stack \<union> fresh h"
  using assms(2)
proof (induction k arbitrary: stack h)
  case 0
  then show ?case by simp
next
  case (Suc k)
  from branch_match_Inr[OF Suc.prems(1)]
  consider (empty) "stack = []" "r = None" "stack' = []" "h' = h"
    | (fin) tp rest where "stack = tp # rest" "r = Some (s_str tp)" "stack' = rest" "h' = h"
    | (step) tp rest st1 h1 where "stack = tp # rest"
        "atom_match n cm e (obj ! s_index tp) stack gr head h = Inr (st1, h1)"
        "branch_match k n cm e obj st1 gr head h1 = Inr (r, stack', h')"
    by auto
  then show ?case
  proof cases
    case empty
    then show ?thesis by (simp add: frame_refl)
  next
    case fin
    then show ?thesis by (auto simp: frame_refl nests_Cons)
  next
    case step
    from atom_match_frame[OF assms(1) step(2)] touch_subset[of "obj ! s_index tp" gr]
    have a: "frame ({gr} \<union> nests stack) h h1" "nests st1 \<subseteq> nests stack \<union> fresh h"
      by (auto elim: frame_mono)
    from Suc.IH[OF step(3)]
    have i: "frame ({gr} \<union> nests st1) h1 h'" "nests stack' \<subseteq> nests st1 \<union> fresh h1" by auto
    have "frame ({gr} \<union> nests stack) h h'"
      by (rule frame_step[OF a(1) i(1)]) (use a(2) in auto)
    moreover have "nests stack' \<subseteq> nests stack \<union> fresh h"
      using i(2) a(2) frame_fresh[OF a(1)] by auto
    ultimately show ?thesis by simp
  qed
qed

lemma branch_loop_frame:
  assumes "cm_fr cm"
    "branch_loop k n cm e obj nbr str groups head stack h = Inr (r, nbr', stack', h')"
  shows "frame ({groups} \<union> nests stack) h h' \<and> nests stack' \<subseteq> nests stack \<union> fresh h"
  using assms(2)
proof (induction k arbitrary: nbr stack h)
  case 0
  then show ?case by simp
next
  case (Suc k)
  from branch_loop_Inr[OF Suc.prems(1)] obtain r1 st1 h1 where
    bm: "branch_match n n cm e (c_start obj ! nbr) stack groups head h = Inr (r1, st1, h1)"
    and rest: "(r1 \<noteq> None \<and> r = r1 \<and> nbr' = nbr \<and> stack' = st1 \<and> h' = h1)
            \<or> (r1 = None \<and> Suc nbr < length (c_start obj)
                \<and> branch_loop k n cm e obj (Suc nbr) str groups head
                     (bts_push st1 0 str 0 False None 0) h1 = Inr (r, nbr', stack', h'))
            \<or> (r1 = None \<and> \<not> Suc nbr < length (c_start obj)
                \<and> r = None \<and> nbr' = nbr \<and> stack' = [] \<and> bts_free st1 h1 = Inr h')"
    by auto
  from branch_match_frame[OF assms(1) bm]
  have a: "frame ({groups} \<union> nests stack) h h1" "nests st1 \<subseteq> nests stack \<union> fresh h" by auto
  from rest show ?case
  proof (elim disjE conjE)
    assume "stack' = st1" "h' = h1"
    with a show ?thesis by simp
  next
    assume l: "branch_loop k n cm e obj (Suc nbr) str groups head
                     (bts_push st1 0 str 0 False None 0) h1 = Inr (r, nbr', stack', h')"
    from Suc.IH[OF l]
    have i: "frame ({groups} \<union> nests st1) h1 h'" "nests stack' \<subseteq> nests st1 \<union> fresh h1"
      by auto
    have "frame ({groups} \<union> nests stack) h h'"
      by (rule frame_step[OF a(1) i(1)]) (use a(2) in auto)
    moreover have "nests stack' \<subseteq> nests stack \<union> fresh h"
      using i(2) a(2) frame_fresh[OF a(1)] by auto
    ultimately show ?thesis by simp
  next
    assume f: "stack' = []" "bts_free st1 h1 = Inr h'"
    from bts_free_frame[OF f(2)] have i: "frame (nests st1) h1 h'" .
    have "frame ({groups} \<union> nests stack) h h'"
      by (rule frame_step[OF a(1) i]) (use a(2) in auto)
    with f(1) show ?thesis by simp
  qed
qed

lemma FoundMatch_frame:
  assumes f: "FoundMatch obj str outer g captcha en nbr st h = Inr (r, outer', h')"
  shows "frame ({g} \<union> nests st) h h' \<and> r = Some (g, en)
         \<and> nests_opt outer' \<subseteq> nests_opt outer \<union> nests st"
  using f
proof (rule FoundMatchE)
  fix h1 o1 h2
  assume w: "(if c_index obj \<ge> 0
              then slot_write h g captcha \<lparr>gbegin = Some str, gend = Some en\<rparr>
              else Inr h) = Inr h1"
    and o: "(case outer of
        Some out \<Rightarrow>
          if st \<noteq> []
          then Inr (Some (bts_push out 0 str 0 True (Some st) nbr), h1)
          else if Suc nbr < length (c_start obj)
          then Inr (Some (bts_push out 0 str 0 True
                            (Some (bts_push st 0 str 0 False None 0)) (Suc nbr)), h1)
          else bnd (bts_free st h1) (\<lambda>h.
                 Inr (Some (bts_push out 0 str 0 True None 0), h))
      | None \<Rightarrow> bnd (bts_free st h1) (\<lambda>h. Inr (None, h))) = Inr (o1, h2)"
    and res: "(r, outer', h') = (Some (g, en), o1, h2)"
  from w have f1: "frame {g} h h1"
    by (auto simp: frame_refl split: if_splits dest: slot_write_frame)
  have f2: "frame (nests st) h1 h2 \<and> nests_opt o1 \<subseteq> nests_opt outer \<union> nests st"
  proof (cases outer)
    case None
    with o have "bts_free st h1 = Inr h2" "o1 = None" by (auto simp: bnd_Inr_iff)
    then show ?thesis using None by (auto dest: bts_free_frame)
  next
    case (Some out)
    with o show ?thesis
      by (auto simp: bnd_Inr_iff frame_refl split: if_splits dest: bts_free_frame)
  qed
  have "frame ({g} \<union> nests st) h h2"
    by (rule frame_step[OF f1 conjunct1[OF f2]]) auto
  with f2 res show ?thesis by simp
qed

lemma core_match_body_frame:
  assumes "cm_fr cm"
  shows "cm_fr (core_match_body n cm e)"
  unfolding cm_fr_def
proof (intro allI impI)
  fix obj str outer groups stack nbr head h r outer' h'
  assume b: "core_match_body n cm e obj str outer groups stack nbr head h = Inr (r, outer', h')"
  let ?goal = "frame (set_option groups \<union> nests_opt stack) h h'
          \<and> nests_opt outer' \<subseteq> nests_opt outer \<union> nests_opt stack \<union> fresh h
          \<and> (\<forall>g en. r = Some (g, en) \<longrightarrow> groups = Some g \<or> groups = None \<and> length h \<le> g)"
  let ?st = "(case stack of None \<Rightarrow> bts_push [] 0 str 0 False None 0 | Some s \<Rightarrow> s)"
  let ?T = "set_option groups \<union> nests_opt stack"
  from b show ?goal
  proof (rule core_match_bodyE)
    fix g h1 captcha h2 r1 nbr' st h3
    assume 1: "(if c_index obj = 0 \<and> groups = None
      then bnd (range_new (core_groups obj) h) (\<lambda>(g, h). Inr (Some g, h))
      else Inr (groups, h)) = Inr (Some g, h1)"
      and 3: "(if c_index obj \<ge> 0 then slot_write h1 g captcha \<lparr>gbegin = None, gend = None\<rparr>
      else Inr h1) = Inr h2"
      and 6: "branch_loop n n cm e obj nbr str g head ?st h2 = Inr (r1, nbr', st, h3)"
      and 7: "case r1 of
       None \<Rightarrow> \<exists>h4. (if c_index obj = 0 \<and> groups = None then range_free (Some g) h3
                       else Inr h3) = Inr h4 \<and> (r, outer', h') = (None, outer, h4)
     | Some en \<Rightarrow> FoundMatch obj str outer g captcha en nbr' st h3 = Inr (r, outer', h')"
    from 1 have f1: "frame {} h h1"
      and g: "groups = Some g \<or> groups = None \<and> g = length h"
      by (auto simp: bnd_Inr_iff frame_refl split: if_splits dest: range_new_frame)
    from g have gT: "g \<in> ?T \<union> fresh h" by (auto simp: fresh_def)
    from 3 have f2: "frame {g} h1 h2"
      by (auto simp: frame_refl split: if_splits dest: slot_write_frame)
    have f12: "frame ?T h h2"
      by (rule frame_step[OF f1 f2]) (use gT in auto)
    have nst: "nests ?st = nests_opt stack" by (cases stack) auto
    from branch_loop_frame[OF assms 6] nst
    have f3: "frame ({g} \<union> nests_opt stack) h2 h3" "nests st \<subseteq> nests_opt stack \<union> fresh h2"
      by auto
    have f123: "frame ?T h h3"
      by (rule frame_step[OF f12 f3(1)]) (use gT in auto)
    from f3(2) frame_fresh[OF f12] have nst': "nests st \<subseteq> nests_opt stack \<union> fresh h" by auto
    show ?goal
    proof (cases r1)
      case None
      with 7 obtain h4 where
        h4: "(if c_index obj = 0 \<and> groups = None then range_free (Some g) h3
                       else Inr h3) = Inr h4" and res: "r = None" "outer' = outer" "h' = h4"
        by auto
      from h4 have f4: "frame {g} h3 h4"
        by (auto simp: frame_refl split: if_splits dest: range_free_frame)
      have "frame ?T h h4"
        by (rule frame_step[OF f123 f4]) (use gT in auto)
      with res show ?thesis by auto
    next
      case (Some en)
      with 7 have f: "FoundMatch obj str outer g captcha en nbr' st h3 = Inr (r, outer', h')"
        by simp
      from FoundMatch_frame[OF f]
      have f4: "frame ({g} \<union> nests st) h3 h'" and r: "r = Some (g, en)"
        and o: "nests_opt outer' \<subseteq> nests_opt outer \<union> nests st" by auto
      have "frame ?T h h'"
        by (rule frame_step[OF f123 f4]) (use gT nst' in auto)
      with r o nst' g show ?thesis by auto
    qed
  qed
qed

lemma core_match_frame: "cm_fr (core_match n e)"
proof (induction n)
  case 0
  have "core_match 0 e = (\<lambda>obj str outer groups stack nbr head h. Inl OutOfFuel)"
    by (intro ext) simp
  then show ?case by (simp add: cm_fr_def)
next
  case (Suc n)
  have "core_match (Suc n) e = core_match_body n (core_match n e) e"
    by (intro ext) simp
  with core_match_body_frame[OF Suc] show ?case by simp
qed

subsection \<open>UTF-8\<close>

text \<open>
  C5.  The spec: for every codepoint \<open>c \<le> 0x10FFFF\<close>, decoding the encoding of
  \<open>c\<close> gives back \<open>c\<close> and the standard byte length of \<open>c\<close> (1 below \<open>0x80\<close>, 2
  below \<open>0x800\<close>, 3 below \<open>0x10000\<close>, 4 otherwise).  The code compares with
  \<open>0x0F00\<close> and \<open>0xFFFF\<close> in \<open>ByteLen\<close> and masks the lead byte of a four-byte
  sequence with \<open>0x08\<close>: the codepoint \<open>0x800\<close> gets length 2, is encoded as
  \<open>C0 80\<close> and decoded as 0 with 2 bytes consumed, and the codepoint \<open>0x40000\<close>
  is decoded as 0.
\<close>

theorem u8_roundtrip_fails_at_0x800:
  "decode (u8_duplicate 0x800) 0 = Inr (0, 2) \<and> ByteLen 0x800 = 2
   \<and> decode (u8_duplicate 0x40000) 0 = Inr (0, 4)"
  by code_simp

text \<open>
  C6.  The claim: every input that does not begin with a well-formed sequence
  decodes to the sentinel \<open>0xFFFFFFFF\<close> with exactly one byte consumed, and
  \<open>u8_end\<close> is documented as the first byte of the next sequence.  \<open>_decode\<close>
  stores \<open>begin + n\<close> into \<open>*end\<close> before it tests the continuation bytes of a
  sequence of \<open>n\<close> bytes; only a stray continuation byte gives \<open>begin + 1\<close>.
  The lead byte \<open>C3\<close> followed by the letter \<open>A\<close> gives the sentinel with two
  bytes consumed, so that the letter is skipped; \<open>C3\<close> followed by the
  terminator gives an end behind the terminator, and so does \<open>E2 82\<close>.  Sequences
  that are not well-formed but have the right continuation bytes are decoded
  to a codepoint and not to the sentinel: the overlong \<open>C0 80\<close> to 0, the
  surrogate \<open>ED A0 80\<close> to \<open>0xD800\<close>, and \<open>FF BF BF BF\<close> to \<open>0x23FFFF\<close>.
\<close>

theorem decode_malformed_diverges:
  "decode [0xC3, 0x41, 0] 0 = Inr (ErrorPoint, 2)
   \<and> decode [0xC3, 0x41, 0] 0 \<noteq> Inr (ErrorPoint, 0 + 1)
   \<and> decode [0xC3, 0] 0 = Inr (ErrorPoint, 2)
   \<and> decode [0xE2, 0x82, 0] 0 = Inr (ErrorPoint, 3)
   \<and> decode [0xC0, 0x80, 0] 0 = Inr (0, 2)
   \<and> decode [0xED, 0xA0, 0x80, 0] 0 = Inr (0xD800, 3)
   \<and> decode [0xFF, 0xBF, 0xBF, 0xBF, 0] 0 = Inr (0x23FFFF, 4)"
  by code_simp

text \<open>
  The end that \<open>_decode\<close> returns, for every buffer: a first byte of the form
  \<open>10xxxxxx\<close> gives the sentinel with one byte consumed; a lead byte that
  announces \<open>n\<close> bytes (2 for the high nibbles \<open>C\<close> and \<open>D\<close>, 3 for \<open>E\<close>, 4 for
  \<open>F\<close>), followed by fewer than \<open>n - 1\<close> continuation bytes, gives the sentinel
  with \<open>n\<close> bytes consumed, whatever the bytes skipped are.
\<close>

theorem decode_sentinel_end:
  "(rd buf p = Some b0 \<and> 0x80 \<le> b0 AND 0xF0 \<and> b0 AND 0xF0 < 0xC0
      \<longrightarrow> decode buf p = Inr (ErrorPoint, p + 1))
   \<and> (rd buf p = Some b0 \<and> 0xC0 \<le> b0 AND 0xF0 \<and> b0 AND 0xF0 < 0xE0
        \<and> rd buf (p + 1) = Some b1 \<and> \<not> IsCont b1
      \<longrightarrow> decode buf p = Inr (ErrorPoint, p + 2))
   \<and> (rd buf p = Some b0 \<and> b0 AND 0xF0 = 0xE0 \<and> rd buf (p + 1) = Some b1
        \<and> (\<not> IsCont b1 \<or> (rd buf (p + 2) = Some b2 \<and> \<not> IsCont b2))
      \<longrightarrow> decode buf p = Inr (ErrorPoint, p + 3))
   \<and> (rd buf p = Some b0 \<and> b0 AND 0xF0 = 0xF0 \<and> rd buf (p + 1) = Some b1
        \<and> (\<not> IsCont b1 \<or> (rd buf (p + 2) = Some b2
              \<and> (\<not> IsCont b2 \<or> (rd buf (p + 3) = Some b3 \<and> \<not> IsCont b3))))
      \<longrightarrow> decode buf p = Inr (ErrorPoint, p + 4))
   \<and> (decode buf p = Inr (cp, e) \<longrightarrow> p < e \<and> e \<le> p + 4)"
proof (intro conjI impI)
  assume "rd buf p = Some b0 \<and> 0x80 \<le> b0 AND 0xF0 \<and> b0 AND 0xF0 < 0xC0"
  then show "decode buf p = Inr (ErrorPoint, p + 1)"
    by (auto simp: decode_def Let_def word_less_nat_alt word_le_nat_alt)
next
  assume "rd buf p = Some b0 \<and> 0xC0 \<le> b0 AND 0xF0 \<and> b0 AND 0xF0 < 0xE0
        \<and> rd buf (p + 1) = Some b1 \<and> \<not> IsCont b1"
  then show "decode buf p = Inr (ErrorPoint, p + 2)"
    by (auto simp: decode_def Let_def word_less_nat_alt word_le_nat_alt)
next
  assume "rd buf p = Some b0 \<and> b0 AND 0xF0 = 0xE0 \<and> rd buf (p + 1) = Some b1
        \<and> (\<not> IsCont b1 \<or> (rd buf (p + 2) = Some b2 \<and> \<not> IsCont b2))"
  then show "decode buf p = Inr (ErrorPoint, p + 3)"
    by (auto simp: decode_def Let_def word_less_nat_alt word_le_nat_alt)
next
  assume "rd buf p = Some b0 \<and> b0 AND 0xF0 = 0xF0 \<and> rd buf (p + 1) = Some b1
        \<and> (\<not> IsCont b1 \<or> (rd buf (p + 2) = Some b2
              \<and> (\<not> IsCont b2 \<or> (rd buf (p + 3) = Some b3 \<and> \<not> IsCont b3))))"
  then show "decode buf p = Inr (ErrorPoint, p + 4)"
    by (auto simp: decode_def Let_def word_less_nat_alt word_le_nat_alt)
next
  assume "decode buf p = Inr (cp, e)"
  then show "p < e"
    by (auto simp: decode_def Let_def split: option.splits if_splits)
next
  assume "decode buf p = Inr (cp, e)"
  then show "e \<le> p + 4"
    by (auto simp: decode_def Let_def split: option.splits if_splits)
qed

theorem decode_sentinel_end_witness:
  "rd [0xC3, 0x41, 0] 0 = Some 0xC3 \<and> (0xC0 :: byte) \<le> 0xC3 AND 0xF0
   \<and> (0xC3 :: byte) AND 0xF0 < 0xE0 \<and> rd [0xC3, 0x41, 0] (0 + 1) = Some 0x41
   \<and> \<not> IsCont 0x41 \<and> decode [0xC3, 0x41, 0] 0 = Inr (ErrorPoint, 0 + 2)
   \<and> rd [0x80, 0] 0 = Some 0x80 \<and> decode [0x80, 0] 0 = Inr (ErrorPoint, 0 + 1)
   \<and> (0 :: int) < 0 + 2"
  using decode_sentinel_end [of "[0xC3, 0x41, 0]" 0 "0xC3" "0x41" 0 0 ErrorPoint "0 + 2"]
        decode_sentinel_end [of "[0x80, 0]" 0 "0x80" 0 0 0 ErrorPoint "0 + 1"]
  by (simp add: rd_def IsCont_def)

subsection \<open>Character classes\<close>

text \<open>
  C4.  The spec: \<open>A \<union> A = A\<close>, \<open>A \<inter> A = A\<close>, \<open>A - A = \<emptyset>\<close> and
  \<open>|A \<union> B| + |A \<inter> B| = |A| + |B|\<close>, with the intersection the set
  \<open>A - (U - B)\<close>.  \<open>class_intersection\<close> leaves its left argument as it is: for
  \<open>A = {1}\<close> and \<open>B = {3}\<close> the intersection is \<open>{1}\<close>, the union has two elements,
  and the two sides of the cardinality law are 3 and 2.
\<close>

theorem class_intersection_is_stub:
  "bnd (class_insert_codepoint class_new 1) (\<lambda>A.
   bnd (class_insert_codepoint class_new 3) (\<lambda>B.
   bnd (class_intersection A B) (\<lambda>I.
   bnd (class_union A B) (\<lambda>U.
     Inr (I = A, class_search I 1, hook_inorder U,
          class_cardinality U + class_cardinality I,
          class_cardinality A + class_cardinality B)))))
   = Inr (True, True, [\<lparr>lo = 1, hi = 1\<rparr>, \<lparr>lo = 3, hi = 3\<rparr>], 3, 2)"
  by code_simp

text \<open>
  C7.  The spec: after \<open>class_delete_range c r\<close> no codepoint of \<open>r\<close> is in
  the class.  Where \<open>r\<close> overlaps a range on one side only, the code sets the
  bound of the range to \<open>r.lo\<close> or \<open>r.hi\<close> itself (the branch that splits a range
  uses \<open>r.lo - 1\<close> and \<open>r.hi + 1\<close>): deleting \<open>[5, 20]\<close> from \<open>{[1, 10]}\<close>
  leaves \<open>[1, 5]\<close>, and 5 is still found.
\<close>

theorem class_delete_range_keeps_endpoint:
  "bnd (class_insert_range class_new \<lparr>lo = 1, hi = 10\<rparr>) (\<lambda>c.
   bnd (class_delete_range c \<lparr>lo = 5, hi = 20\<rparr>) (\<lambda>c'.
     Inr (hook_inorder c', class_search c' 5)))
   = Inr ([\<lparr>lo = 1, hi = 5\<rparr>], True)"
  by code_simp

text \<open>
  C8.  The spec: after any sequence of operations on classes created empty,
  the ranges in order are strictly increasing with gaps of at least 2.
  Inserting \<open>[1, 5]\<close> and then \<open>[5, 8]\<close> into a new class gives the two
  overlapping ranges \<open>[1, 5]\<close> and \<open>[5, 8]\<close>; inserting \<open>[1, 2]\<close>, \<open>[6, 7]\<close> and
  then \<open>[3, 5]\<close> gives the adjacent ranges \<open>[1, 5]\<close> and \<open>[6, 7]\<close>; inserting
  \<open>[1, 2]\<close> and then \<open>[3, 4]\<close> dereferences \<open>NULL\<close> in \<open>one_away_ranges\<close>.
\<close>

theorem class_insert_range_overlapping:
  "bnd (class_insert_range class_new \<lparr>lo = 1, hi = 5\<rparr>) (\<lambda>c.
   bnd (class_insert_range c \<lparr>lo = 5, hi = 8\<rparr>) (\<lambda>c'. Inr (hook_inorder c')))
   = Inr [\<lparr>lo = 1, hi = 5\<rparr>, \<lparr>lo = 5, hi = 8\<rparr>]
   \<and> bnd (class_insert_range class_new \<lparr>lo = 1, hi = 2\<rparr>) (\<lambda>c.
     bnd (class_insert_range c \<lparr>lo = 6, hi = 7\<rparr>) (\<lambda>c.
     bnd (class_insert_range c \<lparr>lo = 3, hi = 5\<rparr>) (\<lambda>c'. Inr (hook_inorder c'))))
   = Inr [\<lparr>lo = 1, hi = 5\<rparr>, \<lparr>lo = 6, hi = 7\<rparr>]
   \<and> bnd (class_insert_range class_new \<lparr>lo = 1, hi = 2\<rparr>) (\<lambda>c.
     class_insert_range c \<lparr>lo = 3, hi = 4\<rparr>) = Inl NullDeref"
  by code_simp

subsection \<open>Searching\<close>






subsection \<open>Captures\<close>

text \<open>
  C2.  The claim: in every match, every group that is set lies within the
  overall match.  \<open>core_match\<close> nulls the capture of its core when it is entered
  and records it at \<open>FoundMatch\<close>; when the branch that contains the group fails
  later and another branch matches, nothing resets the capture.  The pattern
  \<open>(ab)c|a\<close> matches \<open>abd\<close> with the overall match \<open>[0, 1)\<close> and group 1 set to
  \<open>[0, 2)\<close>, captured in the first branch, which failed at \<open>c\<close>: \<open>match_group\<close>
  returns \<open>ab\<close> for a group that was not captured in the match.  The stale
  capture also decides what matches: \<open>(?:(a)b|a)\<close> followed by a backreference
  to group 1 matches \<open>aa\<close>, the backreference reading the group 1 of the
  failed branch.
\<close>

theorem backtracked_capture_leaks:
  "shre_search 12 word_class pat_alt [0x61, 0x62, 0x64, 0]
     = Inr (Some \<lparr>m_groups = [\<lparr>gbegin = Some 0, gend = Some 1\<rparr>,
                               \<lparr>gbegin = Some 0, gend = Some 2\<rparr>], m_offset = 0\<rparr>)
   \<and> shre_search 12 word_class pat_backref [0x61, 0x61, 0]
     = Inr (Some \<lparr>m_groups = [\<lparr>gbegin = Some 0, gend = Some 2\<rparr>,
                               \<lparr>gbegin = Some 0, gend = Some 1\<rparr>], m_offset = 0\<rparr>)"
proof
  show "shre_search 12 word_class pat_alt [0x61, 0x62, 0x64, 0]
     = Inr (Some \<lparr>m_groups = [\<lparr>gbegin = Some 0, gend = Some 1\<rparr>,
                               \<lparr>gbegin = Some 0, gend = Some 2\<rparr>], m_offset = 0\<rparr>)"
    by code_simp
  show "shre_search 12 word_class pat_backref [0x61, 0x61, 0]
     = Inr (Some \<lparr>m_groups = [\<lparr>gbegin = Some 0, gend = Some 2\<rparr>,
                               \<lparr>gbegin = Some 0, gend = Some 1\<rparr>], m_offset = 0\<rparr>)"
    by code_simp
qed

text \<open>
  A group inside a lookahead is captured in the array of the caller while the
  lookahead gives back the position it started from: \<open>a(?=(b))\<close> matches \<open>ab\<close>
  with the overall match \<open>[0, 1)\<close> and group 1 at \<open>[1, 2)\<close>.
\<close>

lemma lookahead_capture_ends_behind_match:
  "shre_search 12 word_class pat_lookahead [0x61, 0x62, 0]
     = Inr (Some \<lparr>m_groups = [\<lparr>gbegin = Some 0, gend = Some 1\<rparr>,
                               \<lparr>gbegin = Some 1, gend = Some 2\<rparr>], m_offset = 0\<rparr>)"
  by code_simp

text \<open>
  The part of the bound that every match has, for a pattern whose root core
  has group number 0: slot 0 is set, with \<open>begin \<le> end\<close>, and every slot is
  either unset or has both ends set, with its beginning at or behind the
  beginning of the overall match and \<open>begin \<le> end\<close>.
\<close>

theorem captures_begin_within_match:
  assumes "shre_search n wc pattern s = Inr (Some m)" and "c_index pattern = 0"
  shows "\<exists>b en. m_groups m \<noteq> [] \<and> m_groups m ! 0 = \<lparr>gbegin = Some b, gend = Some en\<rparr>
           \<and> b \<le> en
           \<and> (\<forall>i < length (m_groups m).
                 gbegin (m_groups m ! i) = None
                 \<or> (\<exists>bi ei. m_groups m ! i = \<lparr>gbegin = Some bi, gend = Some ei\<rparr>
                       \<and> b \<le> bi \<and> bi \<le> ei))"
proof -
  let ?e = "\<lparr>input = s, pattern_core = pattern, word_characters = wc\<rparr>"
  from assms(1) have "search_from n ?e 0 0 = Inr (Some m)" by (simp add: shre_search_def)
  from search_from_Some[OF this] assms(2)
  obtain k en where k: "core_match_top n ?e k 0 = Inr (Some (m_groups m, en))"
    by auto
  from core_match_top_slot0[OF k] assms(2)
  have s0: "m_groups m \<noteq> []" "m_groups m ! 0 = \<lparr>gbegin = Some k, gend = Some en\<rparr>"
    by auto
  from core_match_top_good[OF k]
  have le: "k \<le> en" and all: "\<forall>g \<in> set (m_groups m). good_group k g" by auto
  have "\<forall>i < length (m_groups m).
                 gbegin (m_groups m ! i) = None
                 \<or> (\<exists>bi ei. m_groups m ! i = \<lparr>gbegin = Some bi, gend = Some ei\<rparr>
                       \<and> k \<le> bi \<and> bi \<le> ei)"
  proof (intro allI impI)
    fix i assume "i < length (m_groups m)"
    with all have g: "good_group k (m_groups m ! i)" by simp
    show "gbegin (m_groups m ! i) = None
                 \<or> (\<exists>bi ei. m_groups m ! i = \<lparr>gbegin = Some bi, gend = Some ei\<rparr>
                       \<and> k \<le> bi \<and> bi \<le> ei)"
    proof (cases "gbegin (m_groups m ! i)")
      case None
      then show ?thesis by simp
    next
      case (Some bi)
      with g obtain ei where "gend (m_groups m ! i) = Some ei" "k \<le> bi" "bi \<le> ei"
        by (auto simp: good_group_def split: option.splits)
      with Some have "m_groups m ! i = \<lparr>gbegin = Some bi, gend = Some ei\<rparr> \<and> k \<le> bi \<and> bi \<le> ei"
        by (cases "m_groups m ! i") simp
      then show ?thesis by blast
    qed
  qed
  with s0 le show ?thesis by blast
qed

theorem captures_begin_within_match_witness:
  "shre_search 12 word_class pat_subroutine [0x78, 0x61, 0x61, 0x62, 0x63, 0]
     = Inr (Some \<lparr>m_groups = [\<lparr>gbegin = Some 1, gend = Some 5\<rparr>,
                               \<lparr>gbegin = Some 1, gend = Some 2\<rparr>], m_offset = 1\<rparr>)
   \<and> c_index pat_subroutine = 0
   \<and> (\<exists>b en. [\<lparr>gbegin = Some (1 :: int), gend = Some (5 :: int)\<rparr>,
               \<lparr>gbegin = Some 1, gend = Some 2\<rparr>] ! 0 = \<lparr>gbegin = Some b, gend = Some en\<rparr>
         \<and> b \<le> en
         \<and> (\<exists>bi ei. [\<lparr>gbegin = Some (1 :: int), gend = Some (5 :: int)\<rparr>,
                      \<lparr>gbegin = Some 1, gend = Some 2\<rparr>] ! 1
                      = \<lparr>gbegin = Some bi, gend = Some ei\<rparr>
               \<and> b \<le> bi \<and> bi \<le> ei))"
proof -
  let ?m = "\<lparr>m_groups = [\<lparr>gbegin = Some 1, gend = Some 5\<rparr>,
                         \<lparr>gbegin = Some 1, gend = Some 2\<rparr>], m_offset = 1\<rparr>"
  have r: "shre_search 12 word_class pat_subroutine [0x78, 0x61, 0x61, 0x62, 0x63, 0]
             = Inr (Some ?m)"
    by code_simp
  have i: "c_index pat_subroutine = 0" by (simp add: pat_subroutine_def)
  from captures_begin_within_match [OF r i]
  obtain b en where
    1: "m_groups ?m ! 0 = \<lparr>gbegin = Some b, gend = Some en\<rparr>" "b \<le> en"
    and 2: "\<forall>i < length (m_groups ?m).
                 gbegin (m_groups ?m ! i) = None
                 \<or> (\<exists>bi ei. m_groups ?m ! i = \<lparr>gbegin = Some bi, gend = Some ei\<rparr>
                       \<and> b \<le> bi \<and> bi \<le> ei)"
    by blast
  from 2 have "gbegin (m_groups ?m ! 1) = None
                 \<or> (\<exists>bi ei. m_groups ?m ! 1 = \<lparr>gbegin = Some bi, gend = Some ei\<rparr>
                       \<and> b \<le> bi \<and> bi \<le> ei)"
    by (rule allE [of _ 1]) simp
  then have 3: "\<exists>bi ei. m_groups ?m ! 1 = \<lparr>gbegin = Some bi, gend = Some ei\<rparr>
                       \<and> b \<le> bi \<and> bi \<le> ei"
    by simp
  from 1 3 have "\<exists>b en. m_groups ?m ! 0 = \<lparr>gbegin = Some b, gend = Some en\<rparr>
         \<and> b \<le> en
         \<and> (\<exists>bi ei. m_groups ?m ! 1 = \<lparr>gbegin = Some bi, gend = Some ei\<rparr>
               \<and> b \<le> bi \<and> bi \<le> ei)"
    by blast
  with r i show ?thesis by simp
qed

subsection \<open>Subroutines\<close>

text \<open>A Subroutine atom, with its repetitions: \<open>greedy_match\<close> or \<open>lazy_match\<close> on
  the state on top of the stack.\<close>

lemma atom_match_subroutine_frame:
  assumes "atom_match n (core_match n e) e atom stack gr head h = Inr (stack', h')"
    and "a_info atom = Subroutine i" and "gr < length h" and "gr \<notin> nests stack"
  shows "h' ! gr = h ! gr \<and> gr \<notin> nests stack'"
proof -
  from assms(2) have t: "touch atom gr = {}" by (simp add: touch_def)
  from atom_match_frame[OF core_match_frame assms(1)] t
  have f: "frame (nests stack) h h'" and n: "nests stack' \<subseteq> nests stack \<union> fresh h" by auto
  from frameD[OF f assms(3,4)] n assms(3,4) show ?thesis by (auto simp: fresh_def)
qed

text \<open>
  C3.  A call of \<open>match_subroutine\<close> that returns leaves the array \<open>gr\<close> of its
  caller as it was, whether the nested core has matched or not: the nested
  core writes into the snapshot (the copy of \<open>gr\<close> made by \<open>range_copy\<close>, or the
  snapshot \<open>nest\<close> saved in the state that is resumed), the caller gets the end
  position only.  The caller's array is a cell of the heap and is none of the
  snapshots held by the stacks of the call; this stays so for the stack
  that the call returns, so that it holds again when a state of it is resumed.
\<close>

theorem match_subroutine_keeps_caller_groups:
  assumes "match_subroutine (core_match n e) e atom matches str gr stack inner nbr head nest h
           = Inr (r, stack', h')"
    and "gr < length h"
    and "gr \<notin> set_option nest \<union> nests_opt inner \<union> nests stack"
  shows "h' ! gr = h ! gr \<and> gr \<notin> nests stack'"
proof -
  from match_subroutine_frame[OF core_match_frame assms(1)]
  have f: "frame (set_option nest \<union> nests_opt inner) h h'"
    and n: "nests stack' \<subseteq> nests stack \<union> set_option nest \<union> nests_opt inner \<union> fresh h"
    by auto
  from assms(3) have "gr \<notin> set_option nest \<union> nests_opt inner" by simp
  from frameD[OF f assms(2) this] n assms(2,3) show ?thesis by (auto simp: fresh_def)
qed

theorem match_subroutine_keeps_caller_groups_witness:
  "match_subroutine
     (core_match 6 \<lparr>input = [0x61, 0x61, 0x62, 0x63, 0], pattern_core = pat_subroutine,
                     word_characters = word_class\<rparr>)
     \<lparr>input = [0x61, 0x61, 0x62, 0x63, 0], pattern_core = pat_subroutine,
      word_characters = word_class\<rparr>
     (Atom 1 (Subroutine 1) False True once) 0 1 0
     [State 0 0 0 (Some [State 0 0 0 None None 0 False]) None 1 True] None 0 0 None
     [Some [\<lparr>gbegin = None, gend = None\<rparr>, \<lparr>gbegin = Some 0, gend = Some 1\<rparr>]]
   = Inr (Some 2,
          [State 1 0 1 (Some [State 0 0 1 None None 0 False]) (Some 1) 1 True,
           State 0 0 0 (Some [State 0 0 0 None None 0 False]) None 1 True],
          [Some [\<lparr>gbegin = None, gend = None\<rparr>, \<lparr>gbegin = Some 0, gend = Some 1\<rparr>],
           Some [\<lparr>gbegin = None, gend = None\<rparr>, \<lparr>gbegin = Some 1, gend = Some 2\<rparr>]])
   \<and> (0 :: nat) < length [Some [\<lparr>gbegin = None, gend = None\<rparr>,
                                 \<lparr>gbegin = Some (0 :: int), gend = Some (1 :: int)\<rparr>]]
   \<and> (0 :: nat) \<notin> set_option None \<union> nests_opt None
         \<union> nests [State 0 0 0 (Some [State 0 0 0 None None 0 False]) None 1 True]
   \<and> [Some [\<lparr>gbegin = None, gend = None\<rparr>, \<lparr>gbegin = Some 0, gend = Some 1\<rparr>],
       Some [\<lparr>gbegin = None, gend = None\<rparr>, \<lparr>gbegin = Some 1, gend = Some 2\<rparr>]] ! 0
     = [Some [\<lparr>gbegin = None, gend = None\<rparr>,
              \<lparr>gbegin = Some (0 :: int), gend = Some (1 :: int)\<rparr>]] ! 0
   \<and> (0 :: nat) \<notin> nests [State 1 0 1 (Some [State 0 0 1 None None 0 False]) (Some 1) 1 True,
                           State 0 0 0 (Some [State 0 0 0 None None 0 False]) None 1 True]"
proof -
  let ?e = "\<lparr>input = [0x61, 0x61, 0x62, 0x63, 0], pattern_core = pat_subroutine,
             word_characters = word_class\<rparr>"
  let ?h = "[Some [\<lparr>gbegin = None, gend = None\<rparr>,
                   \<lparr>gbegin = Some (0 :: int), gend = Some (1 :: int)\<rparr>]]"
  let ?st = "[State 0 0 0 (Some [State 0 0 0 None None 0 False]) None 1 True]"
  let ?st' = "[State 1 0 1 (Some [State 0 0 1 None None 0 False]) (Some 1) 1 True,
               State 0 0 0 (Some [State 0 0 0 None None 0 False]) None 1 True]"
  let ?h' = "[Some [\<lparr>gbegin = None, gend = None\<rparr>,
                    \<lparr>gbegin = Some (0 :: int), gend = Some (1 :: int)\<rparr>],
              Some [\<lparr>gbegin = None, gend = None\<rparr>, \<lparr>gbegin = Some 1, gend = Some 2\<rparr>]]"
  have r: "match_subroutine (core_match 6 ?e) ?e (Atom 1 (Subroutine 1) False True once) 0 1 0
             ?st None 0 0 None ?h = Inr (Some 2, ?st', ?h')"
    by code_simp
  have l: "(0 :: nat) < length ?h" by simp
  have s: "(0 :: nat) \<notin> set_option None \<union> nests_opt None \<union> nests ?st" by simp
  from match_subroutine_keeps_caller_groups [OF r l s]
  have "?h' ! 0 = ?h ! 0 \<and> (0 :: nat) \<notin> nests ?st'" .
  with r l s show ?thesis by blast
qed

text \<open>
  The statement is about the calls that return.  With a repeated subroutine
  a call can be made on a snapshot that is already freed: in \<open>(a|ab)(?1){2}c\<close> on
  \<open>aabac\<close> the state of the first repetition is resumed with its saved snapshot,
  \<open>match_subroutine\<close> frees the snapshot after the match, and the second
  repetition, in the same run of \<open>greedy_match\<close>, is given the same \<open>nest\<close>.
\<close>

lemma repeated_subroutine_uses_freed_snapshot:
  "shre_search 12 word_class pat_subroutine_twice [0x61, 0x61, 0x62, 0x61, 0x63, 0]
     = Inl UseAfterFree"
  by code_simp

subsection \<open>Word anchors\<close>

text \<open>
  C10.  The claim: a word anchor never reads a byte outside the input; with
  the position at \<open>head\<close>, the byte at \<open>head - 1\<close> is not accessed.
  \<open>match_wordanchor\<close> evaluates \<open>*(str-1)\<close> for \<open>prev_is_word\<close> before it compares
  \<open>str\<close> with \<open>head\<close>: at the start of the input the read is outside the buffer,
  for every atom and every input, and a search with the pattern \<open>\b\<close> in the
  input \<open>a\<close> ends in that read.
\<close>

theorem match_wordanchor_reads_before_head:
  "match_wordanchor e atom 0 0 = Inl OutOfBounds
   \<and> shre_search 12 word_class pat_wordanchor [0x61, 0] = Inl OutOfBounds"
proof
  show "match_wordanchor e atom 0 0 = Inl OutOfBounds"
    by (simp add: match_wordanchor_def rd_def split: option.splits)
  show "shre_search 12 word_class pat_wordanchor [0x61, 0] = Inl OutOfBounds"
    by code_simp
qed

end
